theory Spec2Isabelle
  imports Complex_Main
begin

section \<open>Data model (lib/data\_models.py)\<close>

text \<open>
  Qt objects the code only passes around (a \<^verbatim>\<open>QPixmap\<close>, a callback closure, a
  \<^verbatim>\<open>datetime\<close>) are opaque handles. An asset identifier is
  \<^verbatim>\<open>Union[int, str]\<close>.
\<close>

type_synonym pixmap = nat
type_synonym callback = nat
type_synonym datetime = int

datatype asset_id = IntId int | StrId string

record AssetDetails =
  fullname :: string
  version :: int
  created_at :: datetime
  modified_at :: datetime
  thumbnail :: "pixmap option"

record AssetInfo =
  id' :: asset_id
  type :: string
  name :: string
  icon :: "pixmap option"
  details :: "AssetDetails option"

text \<open>Exceptions (instances of \<^verbatim>\<open>Exception\<close>) the modelled code raises or catches.\<close>

datatype py_exception =
    HookNotFoundError
  | HooksNotLoadedError
  | KeyError string
  | TypeError string
  | ValueError string
  | OtherError string

section \<open>Icon manager (lib/threading\_utils.py)\<close>

text \<open>
  \<^verbatim>\<open>QtGui.QIcon(pixmap)\<close>: the icon built from what a loader emitted (the loader
  emits \<^verbatim>\<open>None\<close> when the accessor returned no pixmap).
\<close>

datatype qicon = QIcon "pixmap option"

text \<open>
  The fields of \<^verbatim>\<open>IconManager\<close> (\<open>queue\<close>, \<open>loaded_icons\<close>, \<open>requests\<close>), and
  around them what its threads hold: \<open>fetching\<close> are the assets a \<^verbatim>\<open>PixmapLoader\<close>
  has taken from the queue and is loading, \<open>signals\<close> the emitted
  \<^verbatim>\<open>pixmap_loaded\<close> signals not yet delivered to the manager's thread. \<open>fetches\<close>,
  \<open>calls\<close> and \<open>icon_log\<close> record the effects: every
  \<^verbatim>\<open>load_asset_icon_pixmap\<close> call issued, every callback invocation, every logged
  exception. The queue is a \<^verbatim>\<open>LifoQueue\<close>: \<^verbatim>\<open>put_nowait\<close> pushes at the head,
  \<^verbatim>\<open>get\<close> pops the head.
\<close>

record icon_manager =
  queue :: "AssetInfo list"
  loaded_icons :: "asset_id \<rightharpoonup> qicon"
  requests :: "asset_id \<rightharpoonup> callback"
  fetching :: "AssetInfo list"
  signals :: "(AssetInfo \<times> pixmap option) list"
  fetches :: "AssetInfo list"
  calls :: "(callback \<times> qicon) list"
  icon_log :: "py_exception list"

definition IconManager_init :: icon_manager where
  "IconManager_init =
     \<lparr>queue = [], loaded_icons = Map.empty, requests = Map.empty, fetching = [],
      signals = [], fetches = [], calls = [], icon_log = []\<rparr>"

text \<open>\<^verbatim>\<open>IconManager.request_icon(callback, asset_info)\<close>.\<close>

definition request_icon :: "callback \<Rightarrow> AssetInfo \<Rightarrow> icon_manager \<Rightarrow> icon_manager" where
  "request_icon cb asset_info m =
     (let asset_id = id' asset_info in
      case loaded_icons m asset_id of
        Some ic \<Rightarrow> m\<lparr>calls := calls m @ [(cb, ic)]\<rparr>
      | None \<Rightarrow>
          (case requests m asset_id of
             Some _ \<Rightarrow> m
           | None \<Rightarrow>
               m\<lparr>requests := (requests m)(asset_id \<mapsto> cb),
                 queue := asset_info # queue m\<rparr>))"

text \<open>
  \<^verbatim>\<open>IconManager._apply_icon(asset_id)\<close>; it is only called right after the icon was
  stored, a missing icon is Python's \<^verbatim>\<open>KeyError\<close>.
\<close>

definition apply_icon :: "asset_id \<Rightarrow> icon_manager \<Rightarrow> py_exception + icon_manager" where
  "apply_icon asset_id m =
     (case loaded_icons m asset_id of
        None \<Rightarrow> Inl (KeyError ''asset_id'')
      | Some ic \<Rightarrow>
          (case requests m asset_id of
             Some cb \<Rightarrow> Inr (m\<lparr>calls := calls m @ [(cb, ic)]\<rparr>)
           | None \<Rightarrow> Inr m))"

text \<open>\<^verbatim>\<open>IconManager._on_pixmap_loaded(asset_info, pixmap)\<close>.\<close>

definition on_pixmap_loaded ::
  "AssetInfo \<Rightarrow> pixmap option \<Rightarrow> icon_manager \<Rightarrow> py_exception + icon_manager" where
  "on_pixmap_loaded asset_info pm m =
     apply_icon (id' asset_info)
       (m\<lparr>loaded_icons := (loaded_icons m)(id' asset_info \<mapsto> QIcon pm)\<rparr>)"

text \<open>\<^verbatim>\<open>IconManager.clear_cache()\<close>.\<close>

definition clear_cache :: "icon_manager \<Rightarrow> icon_manager" where
  "clear_cache m = m\<lparr>loaded_icons := Map.empty, requests := Map.empty\<rparr>"

text \<open>
  One round of \<^verbatim>\<open>PixmapLoader.start\<close>'s loop, in two halves. \<open>loader_get\<close> is
  \<^verbatim>\<open>self._queue.get(timeout=0.005)\<close> followed by the call of
  \<^verbatim>\<open>load_asset_icon_pixmap\<close>: on an empty queue the loop continues and nothing
  changes. \<open>loader_finish i\<close> is the end of the \<open>i\<close>-th running load (the loaders
  run in threads of their own, so loads end in any order) with its outcome: an exception
  is logged; otherwise the pixmap, rounded, or \<^verbatim>\<open>None\<close> is emitted as a
  \<^verbatim>\<open>pixmap_loaded\<close> signal.
\<close>

definition loader_get :: "icon_manager \<Rightarrow> icon_manager" where
  "loader_get m =
     (case queue m of
        [] \<Rightarrow> m
      | a # rest \<Rightarrow> m\<lparr>queue := rest, fetching := fetching m @ [a], fetches := fetches m @ [a]\<rparr>)"

definition loader_finish ::
  "nat \<Rightarrow> py_exception + pixmap option \<Rightarrow> icon_manager \<Rightarrow> icon_manager" where
  "loader_finish i outcome m =
     (if i < length (fetching m) then
        (let a = fetching m ! i; rest = take i (fetching m) @ drop (Suc i) (fetching m) in
         case outcome of
           Inl e \<Rightarrow> m\<lparr>fetching := rest, icon_log := icon_log m @ [e]\<rparr>
         | Inr pm \<Rightarrow> m\<lparr>fetching := rest, signals := signals m @ [(a, pm)]\<rparr>)
      else m)"

text \<open>
  The manager's thread takes the oldest queued \<^verbatim>\<open>pixmap_loaded\<close> signal and runs the
  connected slot \<^verbatim>\<open>_on_pixmap_loaded\<close>.
\<close>

definition deliver_signal :: "icon_manager \<Rightarrow> icon_manager" where
  "deliver_signal m =
     (case signals m of
        [] \<Rightarrow> m
      | (a, pm) # rest \<Rightarrow>
          (case on_pixmap_loaded a pm (m\<lparr>signals := rest\<rparr>) of
             Inl e \<Rightarrow> m\<lparr>signals := rest, icon_log := icon_log m @ [e]\<rparr>
           | Inr m' \<Rightarrow> m'))"

text \<open>What can happen to an icon manager, and a run of such events.\<close>

datatype icon_event =
    RequestIcon callback AssetInfo
  | LoaderGet
  | LoaderFinish nat "py_exception + pixmap option"
  | DeliverSignal
  | ClearCache

fun icon_step :: "icon_event \<Rightarrow> icon_manager \<Rightarrow> icon_manager" where
  "icon_step (RequestIcon cb a) m = request_icon cb a m"
| "icon_step LoaderGet m = loader_get m"
| "icon_step (LoaderFinish i outcome) m = loader_finish i outcome m"
| "icon_step DeliverSignal m = deliver_signal m"
| "icon_step ClearCache m = clear_cache m"

fun icon_run :: "icon_event list \<Rightarrow> icon_manager \<Rightarrow> icon_manager" where
  "icon_run [] m = m"
| "icon_run (e # es) m = icon_run es (icon_step e m)"

text \<open>
  What holds of the queue while the cache is not cleared: no identifier has two entries
  among the queued assets and the loads issued so far, the identifiers there are the
  recorded requests, and a running load is an issued one.
\<close>

definition icon_inv :: "icon_manager \<Rightarrow> bool" where
  "icon_inv m \<longleftrightarrow>
     distinct (map id' (queue m @ fetches m)) \<and>
     id' ` set (queue m @ fetches m) = dom (requests m) \<and>
     set (fetching m) \<subseteq> set (fetches m)"

text \<open>The running loads never hold an identifier twice either.\<close>

definition loads_inv :: "icon_manager \<Rightarrow> bool" where
  "loads_inv m \<longleftrightarrow> icon_inv m \<and> distinct (map id' (fetching m))"

text \<open>How many assets of a list carry the identifier \<open>k\<close>.\<close>

definition entries :: "asset_id \<Rightarrow> AssetInfo list \<Rightarrow> nat" where
  "entries k xs = length (filter (\<lambda>x. id' x = k) xs)"

section \<open>Background request runner (lib/threading\_utils.py)\<close>

text \<open>
  A \<^verbatim>\<open>RequestRunnable\<close> holds a zero-argument \<open>request\<close> and a \<open>callback\<close>. What the
  request returns or raises is decided when a pool thread runs it, from whatever the
  closure reads then: the world \<open>'w\<close>. Exceptions are instances of
  \<^verbatim>\<open>Exception\<close>, the ones \<^verbatim>\<open>except Exception\<close> catches.
\<close>

record ('w, 'r) RequestRunnable =
  request :: "'w \<Rightarrow> py_exception + 'r"
  callback :: callback

text \<open>
  The Qt side: \<open>pool\<close> are the runnables handed to
  \<^verbatim>\<open>QThreadPool.globalInstance().start\<close> and not yet run; \<open>ui_queue\<close> the
  \<^verbatim>\<open>InvokeMethod\<close> objects whose \<^verbatim>\<open>called\<close> signal waits for the main thread's
  event loop, each a callback with the result it will be given; \<open>invoked\<close> the calls
  \<^verbatim>\<open>callback(result)\<close> made on the main thread; \<open>logged\<close> the exceptions given to
  \<^verbatim>\<open>log.exception\<close>.
\<close>

record ('w, 'r) qt_runtime =
  pool :: "('w, 'r) RequestRunnable list"
  ui_queue :: "(callback \<times> 'r) list"
  invoked :: "(callback \<times> 'r) list"
  logged :: "py_exception list"

definition rt_init :: "('w, 'r) qt_runtime" where
  "rt_init = \<lparr>pool = [], ui_queue = [], invoked = [], logged = []\<rparr>"

text \<open>
  \<^verbatim>\<open>InvokeMethod(method)\<close>: the object moves to the main thread and emits
  \<^verbatim>\<open>called\<close>, so \<^verbatim>\<open>execute\<close> runs there later.
\<close>

definition InvokeMethod :: "callback \<Rightarrow> 'r \<Rightarrow> ('w, 'r) qt_runtime \<Rightarrow> ('w, 'r) qt_runtime" where
  "InvokeMethod cb result rt = rt\<lparr>ui_queue := ui_queue rt @ [(cb, result)]\<rparr>"

text \<open>\<^verbatim>\<open>RequestRunnable.run()\<close>, in the world \<open>w\<close>.\<close>

definition run :: "'w \<Rightarrow> ('w, 'r) RequestRunnable \<Rightarrow> ('w, 'r) qt_runtime \<Rightarrow> ('w, 'r) qt_runtime" where
  "run w r rt =
     (case request r w of
        Inr result \<Rightarrow> InvokeMethod (callback r) result rt
      | Inl e \<Rightarrow> rt\<lparr>logged := logged rt @ [e]\<rparr>)"

text \<open>\<^verbatim>\<open>RequestRunnable.execute(request, callback)\<close>.\<close>

definition execute ::
  "('w \<Rightarrow> py_exception + 'r) \<Rightarrow> callback \<Rightarrow> ('w, 'r) qt_runtime \<Rightarrow> ('w, 'r) qt_runtime" where
  "execute req cb rt = rt\<lparr>pool := pool rt @ [\<lparr>request = req, callback = cb\<rparr>]\<rparr>"

text \<open>
  The two things the runtime does by itself: a pool thread runs the \<open>i\<close>-th started
  runnable (the pool's threads pick in any order), and the main thread's event loop
  handles the oldest queued \<^verbatim>\<open>called\<close> signal (\<^verbatim>\<open>InvokeMethod.execute\<close>).
\<close>

definition pool_run :: "nat \<Rightarrow> 'w \<Rightarrow> ('w, 'r) qt_runtime \<Rightarrow> ('w, 'r) qt_runtime" where
  "pool_run i w rt =
     (if i < length (pool rt)
      then run w (pool rt ! i) (rt\<lparr>pool := take i (pool rt) @ drop (Suc i) (pool rt)\<rparr>)
      else rt)"

definition ui_deliver :: "('w, 'r) qt_runtime \<Rightarrow> ('w, 'r) qt_runtime" where
  "ui_deliver rt =
     (case ui_queue rt of
        [] \<Rightarrow> rt
      | (cb, result) # rest \<Rightarrow> rt\<lparr>ui_queue := rest, invoked := invoked rt @ [(cb, result)]\<rparr>)"

datatype 'w rt_event = PoolRun nat 'w | UiDeliver

fun rt_step :: "'w rt_event \<Rightarrow> ('w, 'r) qt_runtime \<Rightarrow> ('w, 'r) qt_runtime" where
  "rt_step (PoolRun i w) rt = pool_run i w rt"
| "rt_step UiDeliver rt = ui_deliver rt"

fun rt_run :: "'w rt_event list \<Rightarrow> ('w, 'r) qt_runtime \<Rightarrow> ('w, 'r) qt_runtime" where
  "rt_run [] rt = rt"
| "rt_run (e # es) rt = rt_run es (rt_step e rt)"

section \<open>Hook accessor (lib/database/accessor.py)\<close>

text \<open>
  The values a hook hands back: \<^verbatim>\<open>None\<close>, a list of asset type names or of
  \<^verbatim>\<open>AssetInfo\<close>, or an \<^verbatim>\<open>AssetDetails\<close>. \<open>truthy\<close> is Python's truth value, which
  \<^verbatim>\<open>x or result\<close> tests.
\<close>

datatype py_elem = PyStr string | PyAsset AssetInfo

datatype py_value = PyNone | PyList "py_elem list" | PyDetails AssetDetails

fun truthy :: "py_value \<Rightarrow> bool" where
  "truthy PyNone = False"
| "truthy (PyList xs) = (xs \<noteq> [])"
| "truthy (PyDetails d) = True"

text \<open>
  \<^verbatim>\<open>bd.context.Project\<close> and \<^verbatim>\<open>bd.hooks.main.execute\<close> are not part of the
  repository. A project is an object with an \<^verbatim>\<open>id\<close> (and true as a condition); the
  hook registry is a parameter: \<open>hooks name project args\<close> is what
  \<^verbatim>\<open>execute_hook(name, project, *args).one()\<close> returns or raises.
\<close>

record Project =
  project_id :: int

datatype hook_arg = ArgStr string | ArgAsset AssetInfo

type_synonym hooks = "string \<Rightarrow> Project option \<Rightarrow> hook_arg list \<Rightarrow> py_exception + py_value"

text \<open>A registry in which no hook is registered.\<close>

definition no_hooks :: hooks where
  "no_hooks hook_name p args = Inl HookNotFoundError"

record Accessor =
  project :: "Project option"

definition set_active_project :: "Project \<Rightarrow> Accessor \<Rightarrow> Accessor" where
  "set_active_project p acc = acc\<lparr>project := Some p\<rparr>"

text \<open>
  The inner \<^verbatim>\<open>_request\<close> closures. They read \<^verbatim>\<open>self._project\<close> and the registry
  when a pool thread runs them, so their world is the accessor and the registry of that
  moment. The first is the body shared by \<^verbatim>\<open>request_asset_types\<close>,
  \<^verbatim>\<open>request_assets\<close> and \<^verbatim>\<open>request_assets_by_regex\<close>, which differ in the hook's
  name and arguments; the second is that of \<^verbatim>\<open>request_asset_details\<close>.
\<close>

definition list_request :: "string \<Rightarrow> hook_arg list \<Rightarrow> Accessor \<times> hooks \<Rightarrow> py_exception + py_value" where
  "list_request hook_name args w =
     (case w of (acc, hooks) \<Rightarrow>
        (case hooks hook_name (project acc) args of
           Inr v \<Rightarrow> Inr (if truthy v then v else PyList [])
         | Inl HookNotFoundError \<Rightarrow> Inr (PyList [])
         | Inl HooksNotLoadedError \<Rightarrow> Inr (PyList [])
         | Inl e \<Rightarrow> Inl e))"

definition details_request :: "AssetInfo \<Rightarrow> Accessor \<times> hooks \<Rightarrow> py_exception + py_value" where
  "details_request asset_info w =
     (case w of (acc, hooks) \<Rightarrow>
        (case hooks ''bd.loader.get_assets_details'' (project acc) [ArgAsset asset_info] of
           Inr v \<Rightarrow> Inr v
         | Inl HookNotFoundError \<Rightarrow> Inr PyNone
         | Inl HooksNotLoadedError \<Rightarrow> Inr PyNone
         | Inl e \<Rightarrow> Inl e))"

type_synonym accessor_runtime = "(Accessor \<times> hooks, py_value) qt_runtime"

definition request_asset_types :: "callback \<Rightarrow> Accessor \<Rightarrow> accessor_runtime \<Rightarrow> accessor_runtime" where
  "request_asset_types cb acc rt =
     (if project acc = None then rt
      else execute (list_request ''bd.loader.get_asset_types'' []) cb rt)"

definition request_assets ::
  "string \<Rightarrow> callback \<Rightarrow> Accessor \<Rightarrow> accessor_runtime \<Rightarrow> accessor_runtime" where
  "request_assets asset_type cb acc rt =
     (if project acc = None then rt
      else execute (list_request ''bd.loader.get_assets'' [ArgStr asset_type]) cb rt)"

definition request_assets_by_regex ::
  "string \<Rightarrow> callback \<Rightarrow> Accessor \<Rightarrow> accessor_runtime \<Rightarrow> accessor_runtime" where
  "request_assets_by_regex regex cb acc rt =
     (if project acc = None then rt
      else execute (list_request ''bd.loader.get_assets_by_regex'' [ArgStr regex]) cb rt)"

definition request_asset_details ::
  "AssetInfo \<Rightarrow> callback \<Rightarrow> Accessor \<Rightarrow> accessor_runtime \<Rightarrow> accessor_runtime" where
  "request_asset_details asset_info cb acc rt =
     (if project acc = None then rt
      else execute (details_request asset_info) cb rt)"

text \<open>
  The four request methods under one name, for statements about all of them: the
  method, with its arguments other than the callback.
\<close>

datatype accessor_request =
    AssetTypes
  | Assets string
  | AssetsByRegex string
  | AssetDetailsOf AssetInfo

fun accessor_call ::
  "accessor_request \<Rightarrow> callback \<Rightarrow> Accessor \<Rightarrow> accessor_runtime \<Rightarrow> accessor_runtime" where
  "accessor_call AssetTypes = request_asset_types"
| "accessor_call (Assets asset_type) = request_assets asset_type"
| "accessor_call (AssetsByRegex regex) = request_assets_by_regex regex"
| "accessor_call (AssetDetailsOf asset_info) = request_asset_details asset_info"

text \<open>The inner closure each method hands to the runner.\<close>

fun accessor_work :: "accessor_request \<Rightarrow> Accessor \<times> hooks \<Rightarrow> py_exception + py_value" where
  "accessor_work AssetTypes = list_request ''bd.loader.get_asset_types'' []"
| "accessor_work (Assets asset_type) = list_request ''bd.loader.get_assets'' [ArgStr asset_type]"
| "accessor_work (AssetsByRegex regex) =
     list_request ''bd.loader.get_assets_by_regex'' [ArgStr regex]"
| "accessor_work (AssetDetailsOf asset_info) = details_request asset_info"

text \<open>What a method delivers when its hook is missing or returns nothing.\<close>

fun empty_result :: "accessor_request \<Rightarrow> py_value" where
  "empty_result (AssetDetailsOf asset_info) = PyNone"
| "empty_result q = PyList []"

text \<open>The hook each method executes, and the arguments it passes after the project.\<close>

fun accessor_hook :: "accessor_request \<Rightarrow> string" where
  "accessor_hook AssetTypes = ''bd.loader.get_asset_types''"
| "accessor_hook (Assets asset_type) = ''bd.loader.get_assets''"
| "accessor_hook (AssetsByRegex regex) = ''bd.loader.get_assets_by_regex''"
| "accessor_hook (AssetDetailsOf asset_info) = ''bd.loader.get_assets_details''"

fun accessor_args :: "accessor_request \<Rightarrow> hook_arg list" where
  "accessor_args AssetTypes = []"
| "accessor_args (Assets asset_type) = [ArgStr asset_type]"
| "accessor_args (AssetsByRegex regex) = [ArgStr regex]"
| "accessor_args (AssetDetailsOf asset_info) = [ArgAsset asset_info]"

text \<open>The two exceptions the closures catch.\<close>

definition hook_lookup_error :: "py_exception \<Rightarrow> bool" where
  "hook_lookup_error e \<longleftrightarrow> e = HookNotFoundError \<or> e = HooksNotLoadedError"

section \<open>Natural-order sort key (lib/widgets/asset\_selector.py, ProxyModel)\<close>

text \<open>
  Strings are lists of 8-bit characters; \<^verbatim>\<open>\d\<close> is modelled on the ASCII digits and
  \<^verbatim>\<open>str.swapcase\<close> on the ASCII letters (other characters stay as they are).
\<close>

definition is_digit :: "char \<Rightarrow> bool" where
  "is_digit c \<longleftrightarrow> 48 \<le> (of_char c :: nat) \<and> (of_char c :: nat) \<le> 57"

definition swapcase_char :: "char \<Rightarrow> char" where
  "swapcase_char c =
     (case map_of (zip ''abcdefghijklmnopqrstuvwxyz'' ''ABCDEFGHIJKLMNOPQRSTUVWXYZ'' @
                   zip ''ABCDEFGHIJKLMNOPQRSTUVWXYZ'' ''abcdefghijklmnopqrstuvwxyz'') c of
        Some d \<Rightarrow> d
      | None \<Rightarrow> c)"

definition swapcase :: "string \<Rightarrow> string" where
  "swapcase s = map swapcase_char s"

text \<open>
  One attempt of the pattern \<^verbatim>\<open>(\d*\.\d+|\d+)\<close> at the start of \<open>s\<close>: the matched text
  and what follows it. The first alternative takes the digits, a dot and at least one
  more digit; when it fails the second takes the digits alone.
\<close>

definition match_number :: "string \<Rightarrow> (string \<times> string) option" where
  "match_number s =
     (let ds = takeWhile is_digit s; r = dropWhile is_digit s in
      case r of
        c # r' \<Rightarrow>
          if c = CHR ''.'' \<and> takeWhile is_digit r' \<noteq> []
          then Some (ds @ c # takeWhile is_digit r', dropWhile is_digit r')
          else if ds \<noteq> [] then Some (ds, r) else None
      | [] \<Rightarrow> if ds \<noteq> [] then Some (ds, r) else None)"

text \<open>
  \<^verbatim>\<open>re.split\<close> with the one capturing group: the text before each match, the match,
  and at the end the text after the last match. \<open>acc\<close> is the text passed over since
  the last match.
\<close>

function re_split_from :: "string \<Rightarrow> string \<Rightarrow> string list" where
  "re_split_from acc [] = [acc]"
| "re_split_from acc (c # cs) =
     (case match_number (c # cs) of
        Some (m, rest) \<Rightarrow> acc # m # re_split_from [] rest
      | None \<Rightarrow> re_split_from (acc @ [c]) cs)"
  by pat_completeness auto

lemma match_number_shorter:
  "match_number s = Some (m, rest) \<Longrightarrow> length rest < length s"
proof -
  assume a: "match_number s = Some (m, rest)"
  have s: "s = takeWhile is_digit s @ dropWhile is_digit s" by simp
  have le: "length (dropWhile is_digit xs) \<le> length xs" for xs
    by (rule length_dropWhile_le)
  show ?thesis
  proof (cases "dropWhile is_digit s")
    case Nil
    with a have "takeWhile is_digit s \<noteq> []" "rest = []"
      by (auto simp: match_number_def Let_def split: if_splits)
    then show ?thesis by (cases s) auto
  next
    case (Cons c r')
    show ?thesis
    proof (cases "c = CHR ''.'' \<and> takeWhile is_digit r' \<noteq> []")
      case True
      with a Cons have "rest = dropWhile is_digit r'"
        by (simp add: match_number_def Let_def)
      moreover have "length (dropWhile is_digit r') \<le> length r'" by (rule le)
      moreover have "length r' < length (dropWhile is_digit s)" using Cons by simp
      moreover have "length (dropWhile is_digit s) \<le> length s" by (rule le)
      ultimately show ?thesis by simp
    next
      case False
      with a Cons have ne: "takeWhile is_digit s \<noteq> []" and r: "rest = dropWhile is_digit s"
        by (auto simp: match_number_def Let_def split: if_splits)
      have "length s = length (takeWhile is_digit s) + length (dropWhile is_digit s)"
        using s by (metis length_append)
      with ne r show ?thesis by simp
    qed
  qed
qed

termination re_split_from
  by (relation "measure (\<lambda>(acc, s). length s)") (auto dest: match_number_shorter)

definition re_split :: "string \<Rightarrow> string list" where
  "re_split key = re_split_from [] key"

text \<open>
  \<^verbatim>\<open>float(e)\<close> on decimal literals (digits, with or without a dot and a fraction),
  the only strings the pattern can match: the value as a rational, IEEE rounding left
  out; anything else is a \<^verbatim>\<open>ValueError\<close> here.
\<close>

definition digits_value :: "string \<Rightarrow> nat" where
  "digits_value ds = foldl (\<lambda>a c. 10 * a + ((of_char c :: nat) - 48)) 0 ds"

definition py_float :: "string \<Rightarrow> py_exception + rat" where
  "py_float e =
     (let ip = takeWhile is_digit e; r = dropWhile is_digit e in
      case r of
        [] \<Rightarrow> if ip = [] then Inl (ValueError e) else Inr (of_nat (digits_value ip))
      | c # fp \<Rightarrow>
          if c = CHR ''.'' \<and> list_all is_digit fp \<and> (ip \<noteq> [] \<or> fp \<noteq> [])
          then Inr (of_nat (digits_value ip) + of_nat (digits_value fp) / 10 ^ length fp)
          else Inl (ValueError e))"

text \<open>The components of a key tuple: \<^verbatim>\<open>Union[str, float]\<close>.\<close>

datatype key_elem = KStr string | KFloat rat

text \<open>
  \<^verbatim>\<open>ProxyModel._human_key\<close>: the generator over \<^verbatim>\<open>enumerate(parts)\<close>, from index
  \<open>i\<close> on.
\<close>

fun human_key_from :: "nat \<Rightarrow> string list \<Rightarrow> py_exception + key_elem list" where
  "human_key_from i [] = Inr []"
| "human_key_from i (e # es) =
     (if i mod 2 = 0 then
        (case human_key_from (Suc i) es of
           Inl err \<Rightarrow> Inl err
         | Inr ks \<Rightarrow> Inr (KStr (swapcase e) # ks))
      else
        (case py_float e of
           Inl err \<Rightarrow> Inl err
         | Inr v \<Rightarrow>
             (case human_key_from (Suc i) es of
                Inl err \<Rightarrow> Inl err
              | Inr ks \<Rightarrow> Inr (KFloat v # ks))))"

definition human_key :: "string \<Rightarrow> py_exception + key_elem list" where
  "human_key key = human_key_from 0 (re_split key)"

text \<open>
  Python's comparisons. Strings compare by code points, lexicographically; a string and
  a float are unequal under \<^verbatim>\<open>==\<close> and a \<^verbatim>\<open>TypeError\<close> under \<^verbatim>\<open>>\<close>. Tuples compare at
  the first index where they differ, by length when there is none.
\<close>

fun str_gt :: "string \<Rightarrow> string \<Rightarrow> bool" where
  "str_gt [] t = False"
| "str_gt (c # s) [] = True"
| "str_gt (c # s) (d # t) =
     (if c = d then str_gt s t else (of_char d :: nat) < of_char c)"

fun elem_eq :: "key_elem \<Rightarrow> key_elem \<Rightarrow> bool" where
  "elem_eq (KStr s) (KStr t) = (s = t)"
| "elem_eq (KFloat a) (KFloat b) = (a = b)"
| "elem_eq x y = False"

fun elem_gt :: "key_elem \<Rightarrow> key_elem \<Rightarrow> py_exception + bool" where
  "elem_gt (KStr s) (KStr t) = Inr (str_gt s t)"
| "elem_gt (KFloat a) (KFloat b) = Inr (a > b)"
| "elem_gt x y = Inl (TypeError ''> not supported between str and float'')"

fun tuple_gt :: "key_elem list \<Rightarrow> key_elem list \<Rightarrow> py_exception + bool" where
  "tuple_gt [] ys = Inr False"
| "tuple_gt (x # xs) [] = Inr True"
| "tuple_gt (x # xs) (y # ys) = (if elem_eq x y then tuple_gt xs ys else elem_gt x y)"

text \<open>\<^verbatim>\<open>ProxyModel.lessThan\<close>, on the two rows' sort keys.\<close>

definition lessThan :: "string \<Rightarrow> string \<Rightarrow> py_exception + bool" where
  "lessThan left_sort_data right_sort_data =
     (case human_key left_sort_data of
        Inl err \<Rightarrow> Inl err
      | Inr l \<Rightarrow>
          (case human_key right_sort_data of
             Inl err \<Rightarrow> Inl err
           | Inr r \<Rightarrow> tuple_gt l r))"

text \<open>
  Qt's side of sorting, not part of the repository: under \<^verbatim>\<open>AscendingOrder\<close> a row is
  placed before another when \<^verbatim>\<open>lessThan\<close> holds of them, under
  \<^verbatim>\<open>DescendingOrder\<close> when it holds of them swapped. The view calls
  \<^verbatim>\<open>setSortingEnabled(True)\<close> and never chooses an order, so the header's initial
  one applies, which is \<^verbatim>\<open>DescendingOrder\<close>.
\<close>

datatype SortOrder = AscendingOrder | DescendingOrder

definition shown_before :: "SortOrder \<Rightarrow> string \<Rightarrow> string \<Rightarrow> py_exception + bool" where
  "shown_before order' a b =
     (case order' of
        AscendingOrder \<Rightarrow> lessThan a b
      | DescendingOrder \<Rightarrow> lessThan b a)"

text \<open>
  The shape of a key tuple from index parity \<open>b\<close> on (\<open>b\<close> true at an odd index):
  floats at the odd indices, strings at the even ones.
\<close>

fun alternating :: "bool \<Rightarrow> key_elem list \<Rightarrow> bool" where
  "alternating b [] = True"
| "alternating b (KStr s # ks) = (\<not> b \<and> alternating (\<not> b) ks)"
| "alternating b (KFloat v # ks) = (b \<and> alternating (\<not> b) ks)"

text \<open>
  The parts of a split from index parity \<open>b\<close> on: at an odd index a decimal literal, at
  an even index a text without digits.
\<close>

fun split_parts :: "bool \<Rightarrow> string list \<Rightarrow> bool" where
  "split_parts b [] = True"
| "split_parts b (e # es) =
     ((if b then (\<exists>v. py_float e = Inr v) else list_all (\<lambda>c. \<not> is_digit c) e) \<and>
      split_parts (\<not> b) es)"

section \<open>Rows of the GraphQL accessor (lib/database/graphql.py)\<close>

text \<open>
  A row of a query result is a \<^verbatim>\<open>dict\<close> from column names to JSON scalars.
  \<^verbatim>\<open>item[k]\<close> raises \<^verbatim>\<open>KeyError\<close> on a missing key, \<^verbatim>\<open>item.get(k)\<close> gives
  \<^verbatim>\<open>None\<close>.
\<close>

datatype json = JNull | JInt int | JStr string

type_synonym db_item = "string \<rightharpoonup> json"

definition dict_get :: "db_item \<Rightarrow> string \<Rightarrow> json" where
  "dict_get item k = (case item k of Some v \<Rightarrow> v | None \<Rightarrow> JNull)"

text \<open>
  The \<^verbatim>\<open>__init__\<close> that the \<^verbatim>\<open>dataclass\<close> decorator generates takes the fields as parameters, in
  the order of their declaration; a field with a default is optional. \<open>flds\<close> lists
  each field with its default, if any. A call with keyword arguments binds them by
  name: a keyword that is no parameter is a \<^verbatim>\<open>TypeError\<close>, then a required parameter
  without argument is one; otherwise the instance has every field, from the argument or
  the default. The instance is given by its attributes.
\<close>

definition dataclass_init ::
  "(string \<times> json option) list \<Rightarrow> (string \<times> json) list \<Rightarrow> py_exception + (string \<rightharpoonup> json)" where
  "dataclass_init flds kwargs =
     (case find (\<lambda>(k, v). k \<notin> set (map fst flds)) kwargs of
        Some (k, v) \<Rightarrow> Inl (TypeError (''__init__() got an unexpected keyword argument '' @ k))
      | None \<Rightarrow>
          (case find (\<lambda>(f, d). d = None \<and> map_of kwargs f = None) flds of
             Some (f, d) \<Rightarrow> Inl (TypeError (''__init__() missing required argument '' @ f))
           | None \<Rightarrow>
               Inr (\<lambda>f. case map_of kwargs f of
                          Some v \<Rightarrow> Some v
                        | None \<Rightarrow> (case map_of flds f of Some (Some d) \<Rightarrow> Some d | _ \<Rightarrow> None))))"

text \<open>
  The fields of the dataclass \<^verbatim>\<open>AssetInfo\<close> (lib/data\_models.py): \<^verbatim>\<open>id\<close>,
  \<^verbatim>\<open>type\<close> and \<^verbatim>\<open>name\<close> are required, \<^verbatim>\<open>icon\<close> and \<^verbatim>\<open>details\<close> default to
  \<^verbatim>\<open>None\<close>.
\<close>

definition AssetInfo_fields :: "(string \<times> json option) list" where
  "AssetInfo_fields =
     [(''id'', None), (''type'', None), (''name'', None),
      (''icon'', Some JNull), (''details'', Some JNull)]"

definition AssetInfo_init :: "(string \<times> json) list \<Rightarrow> py_exception + (string \<rightharpoonup> json)" where
  "AssetInfo_init kwargs = dataclass_init AssetInfo_fields kwargs"

text \<open>\<^verbatim>\<open>GraphQLAccessor._create_asset_info_from_db_item(item)\<close>.\<close>

definition create_asset_info_from_db_item :: "db_item \<Rightarrow> py_exception + (string \<rightharpoonup> json)" where
  "create_asset_info_from_db_item item =
     (case item ''id'' of
        None \<Rightarrow> Inl (KeyError ''id'')
      | Some i \<Rightarrow>
          (case item ''type'' of
             None \<Rightarrow> Inl (KeyError ''type'')
           | Some t \<Rightarrow>
               (case item ''name'' of
                  None \<Rightarrow> Inl (KeyError ''name'')
                | Some n \<Rightarrow>
                    AssetInfo_init
                      [(''id'', i), (''type'', t), (''name'', n),
                       (''level'', dict_get item ''level''),
                       (''category'', dict_get item ''category'')])))"

section \<open>Filtering (lib/widgets/asset\_selector.py, ProxyModel)\<close>

text \<open>
  A row of the source model with its sort key (the data under \<^verbatim>\<open>ItemRoles.KeyRole\<close>) and its
  child rows. A row is addressed by its path: the row number at each level, from the
  top.
\<close>

datatype row = Row (key_role: string) (child_rows: "row list")

fun row_at :: "row list \<Rightarrow> nat list \<Rightarrow> row option" where
  "row_at rows [] = None"
| "row_at rows (i # path) =
     (if i < length rows
      then (if path = [] then Some (rows ! i) else row_at (child_rows (rows ! i)) path)
      else None)"

text \<open>All rows below a row.\<close>

fun descendants :: "row \<Rightarrow> row list" where
  "descendants (Row k cs) = concat (map (\<lambda>c. c # descendants c) cs)"

text \<open>
  \<^verbatim>\<open>ProxyModel.filterAcceptsRow\<close>. The search itself is Qt's: \<open>found pattern data\<close>
  stands for \<^verbatim>\<open>self.filterRegExp().indexIn(data) != -1\<close>, the filter expression being
  the wildcard pattern set by \<^verbatim>\<open>setFilterWildcard\<close>, case-insensitive as
  \<^verbatim>\<open>setFilterCaseSensitivity\<close> asks.
\<close>

definition filterAcceptsRow :: "(string \<Rightarrow> string \<Rightarrow> bool) \<Rightarrow> string \<Rightarrow> row \<Rightarrow> bool" where
  "filterAcceptsRow found pattern r =
     (if pattern = [] then True else found pattern (key_role r))"

text \<open>
  Qt's side of filtering, not part of the repository. With
  \<^verbatim>\<open>setRecursiveFilteringEnabled(True)\<close> the proxy accepts a row when
  \<^verbatim>\<open>filterAcceptsRow\<close> accepts it or one of its children is accepted in turn; and the
  proxy shows a row when it accepts it and shows its parent (the top rows have none).
\<close>

fun accepted :: "(string \<Rightarrow> string \<Rightarrow> bool) \<Rightarrow> string \<Rightarrow> row \<Rightarrow> bool" where
  "accepted found pattern (Row k cs) =
     (filterAcceptsRow found pattern (Row k cs) \<or> (\<exists>c \<in> set cs. accepted found pattern c))"

fun shown :: "(string \<Rightarrow> string \<Rightarrow> bool) \<Rightarrow> string \<Rightarrow> row list \<Rightarrow> nat list \<Rightarrow> bool" where
  "shown found pattern rows [] = False"
| "shown found pattern rows (i # path) =
     (i < length rows \<and> accepted found pattern (rows ! i) \<and>
      (path = [] \<or> shown found pattern (child_rows (rows ! i)) path))"

text \<open>
  What the search amounts to for a pattern without wildcard characters: the pattern
  occurs in the data, letter case aside.
\<close>

definition lower_char :: "char \<Rightarrow> char" where
  "lower_char c =
     (case map_of (zip ''ABCDEFGHIJKLMNOPQRSTUVWXYZ'' ''abcdefghijklmnopqrstuvwxyz'') c of
        Some d \<Rightarrow> d
      | None \<Rightarrow> c)"

fun is_prefix :: "string \<Rightarrow> string \<Rightarrow> bool" where
  "is_prefix [] t = True"
| "is_prefix (c # s) [] = False"
| "is_prefix (c # s) (d # t) = (c = d \<and> is_prefix s t)"

fun occurs_in :: "string \<Rightarrow> string \<Rightarrow> bool" where
  "occurs_in s [] = (s = [])"
| "occurs_in s (d # t) = (is_prefix s (d # t) \<or> occurs_in s t)"

definition found_plain :: "string \<Rightarrow> string \<Rightarrow> bool" where
  "found_plain pattern data = occurs_in (map lower_char pattern) (map lower_char data)"

section \<open>Lazy tree (lib/widgets/asset\_selector.py, AssetTreeView and ItemModel)\<close>

datatype EntityType = AssetType | AssetName

datatype LoadingStates = ToLoad | NotLoaded | InProgress | Loaded

datatype ItemState = Normal | Expanded | Selected

datatype ViewState = Loading | Ready

text \<open>What an item holds under \<^verbatim>\<open>ItemRoles.DataRole\<close>: its label or an asset.\<close>

datatype item_data = LabelData string | AssetData AssetInfo

text \<open>
  An item of the model: its text, the data under the roles of \<^verbatim>\<open>ItemRoles\<close>
  (\<open>None\<close> while a role is not set), its child rows, and of the class \<^verbatim>\<open>Item\<close> the
  state and the states an icon is stored for; \<open>has_icon\<close> says that the icon Qt shows
  for the item is not null. Items live in a store and are named by their address, as
  the Python objects are; an address outside the store is an item that was destroyed
  (\<^verbatim>\<open>shiboken2.isValid\<close> is false).
\<close>

record Item =
  label :: string
  entity_type :: "EntityType option"
  expandable :: "bool option"
  item_key :: "string option"
  loading_state :: "LoadingStates option"
  data_role :: "item_data option"
  child_items :: "nat list"
  item_state :: ItemState
  icons :: "ItemState list"
  has_icon :: bool

text \<open>
  The closures the view hands out: \<^verbatim>\<open>_on_asset_types_loaded\<close>,
  \<^verbatim>\<open>partial(self._append_asset_items, parent_item, EntityType.AssetName)\<close> and
  \<^verbatim>\<open>self._append_asset_items_by_regex\<close> go to the accessor, \<^verbatim>\<open>_on_loaded\<close> (with the
  item it closes over) to the icon manager. What they are called with: a list of type
  names, a list of assets, an icon or \<^verbatim>\<open>None\<close>.
\<close>

datatype tree_callback =
    OnAssetTypesLoaded
  | AppendAssetItems nat EntityType
  | AppendAssetItemsByRegex
  | OnLoaded nat


text \<open>
  The view: the model's items and its root (\<^verbatim>\<open>invisibleRootItem()\<close>), the next free
  address, \<^verbatim>\<open>_mapping\<close> (a weak reference is the address), \<^verbatim>\<open>_state\<close>,
  \<^verbatim>\<open>_project\<close>, the proxy's filter pattern, and \<open>handed_out\<close>: the closures given to
  the accessor or the icon manager and not called so far. Whether and when one is
  called is up to them.
\<close>

record AssetTreeView =
  items :: "nat \<rightharpoonup> Item"
  root_item :: nat
  next_id :: nat
  mapping :: "string \<rightharpoonup> nat"
  view_state :: ViewState
  view_project :: Project
  filter_wildcard :: string
  handed_out :: "tree_callback list"

text \<open>\<^verbatim>\<open>str\<close> of an integer.\<close>

function str_nat :: "nat \<Rightarrow> string" where
  "str_nat n =
     (if n < 10 then [''0123456789'' ! n]
      else str_nat (n div 10) @ [''0123456789'' ! (n mod 10)])"
  by pat_completeness auto
termination
  by (relation "measure (\<lambda>n. n)") auto

definition py_str :: "int \<Rightarrow> string" where
  "py_str i = (if i < 0 then CHR ''-'' # str_nat (nat (- i)) else str_nat (nat i))"

definition isValid :: "AssetTreeView \<Rightarrow> nat \<Rightarrow> bool" where
  "isValid v n \<longleftrightarrow> items v n \<noteq> None"



text \<open>\<^verbatim>\<open>Item.setIcon(icon, state)\<close> and \<^verbatim>\<open>Item.set_state(state)\<close>, the icon not null.\<close>

definition setIcon :: "nat \<Rightarrow> ItemState \<Rightarrow> AssetTreeView \<Rightarrow> AssetTreeView" where
  "setIcon n st v =
     (case items v n of
        None \<Rightarrow> v
      | Some it \<Rightarrow>
          v\<lparr>items := (items v)(n \<mapsto>
              it\<lparr>icons := st # icons it,
                 has_icon := (if st = item_state it then True else has_icon it)\<rparr>)\<rparr>)"


text \<open>
  \<^verbatim>\<open>AssetTreeView._find_item_by_key(key)\<close>: the item, and the view with a stale
  reference dropped.
\<close>

definition find_item_by_key :: "string \<Rightarrow> AssetTreeView \<Rightarrow> nat option \<times> AssetTreeView" where
  "find_item_by_key k v =
     (case mapping v k of
        None \<Rightarrow> (None, v)
      | Some n \<Rightarrow>
          if isValid v n then (Some n, v)
          else (None, v\<lparr>mapping := (mapping v)(k := None)\<rparr>))"

text \<open>
  \<^verbatim>\<open>AssetTreeView._append_item(parent_item, label, entity_type, key, is_expandable)\<close>:
  the child, and the view after it. The icons of the four known asset types are set on
  a new item of a type; the last branch, for an entity type that is neither, is never
  reached.
\<close>

definition append_item ::
  "nat \<Rightarrow> string \<Rightarrow> EntityType \<Rightarrow> string option \<Rightarrow> bool \<Rightarrow> AssetTreeView \<Rightarrow> nat \<times> AssetTreeView" where
  "append_item parent_item lbl ety key_arg is_expandable v =
     (let parent = (if isValid v parent_item then parent_item else root_item v);
          parent_key =
            (case items v parent of
               Some p \<Rightarrow>
                 (case item_key p of
                    Some k \<Rightarrow> if k = [] then py_str (project_id (view_project v)) else k
                  | None \<Rightarrow> py_str (project_id (view_project v)))
             | None \<Rightarrow> py_str (project_id (view_project v)));
          k = parent_key @ ''|'' @
            (case key_arg of Some ka \<Rightarrow> if ka = [] then lbl else ka | None \<Rightarrow> lbl)
      in case find_item_by_key k v of
           (Some child, v1) \<Rightarrow> (child, v1)
         | (None, v1) \<Rightarrow>
             (let child = next_id v1;
                  child_item =
                    \<lparr>label = lbl, entity_type = Some ety, expandable = Some is_expandable,
                     item_key = Some k, loading_state = Some NotLoaded,
                     data_role = Some (LabelData lbl), child_items = [],
                     item_state = Normal, icons = [], has_icon = False\<rparr>;
                  v2 = v1\<lparr>items := (items v1)(child \<mapsto> child_item),
                          next_id := Suc child,
                          mapping := (mapping v1)(k \<mapsto> child)\<rparr>;
                  v3 = (case items v2 parent of
                          Some p \<Rightarrow>
                            v2\<lparr>items := (items v2)(parent \<mapsto>
                                  p\<lparr>child_items := child_items p @ [child]\<rparr>)\<rparr>
                        | None \<Rightarrow> v2)
              in if ety = AssetName then (child, v3)
                 else if lbl = ''Character'' \<or> lbl = ''Environment'' \<or> lbl = ''Prop'' \<or>
                         lbl = ''Set''
                 then (child, setIcon child Normal v3)
                 else (child, v3)))"
























text \<open>
  The order of the loading states, and what holds of every view that is reached: the
  root is an item, every item's address is below the next free one, and every item has
  one of the three loading states in use.
\<close>

fun rank :: "LoadingStates option \<Rightarrow> nat" where
  "rank (Some NotLoaded) = 1"
| "rank (Some InProgress) = 2"
| "rank (Some Loaded) = 3"
| "rank x = 0"

definition view_wf :: "AssetTreeView \<Rightarrow> bool" where
  "view_wf v \<longleftrightarrow>
     items v (root_item v) \<noteq> None \<and>
     (\<forall>n it. items v n = Some it \<longrightarrow> n < next_id v \<and> 0 < rank (loading_state it))"

text \<open>
  Between two views: every item of the first is an item of the second and its loading
  state has not gone back in the order, respectively has not gone back to
  \<^verbatim>\<open>NotLoaded\<close>.
\<close>

definition advances :: "AssetTreeView \<Rightarrow> AssetTreeView \<Rightarrow> bool" where
  "advances v v' \<longleftrightarrow>
     (\<forall>n it. items v n = Some it \<longrightarrow>
        (\<exists>it'. items v' n = Some it' \<and> rank (loading_state it) \<le> rank (loading_state it')))"

definition never_unloads :: "AssetTreeView \<Rightarrow> AssetTreeView \<Rightarrow> bool" where
  "never_unloads v v' \<longleftrightarrow>
     (\<forall>n it. items v n = Some it \<longrightarrow>
        (\<exists>it'. items v' n = Some it' \<and>
           (loading_state it' = Some NotLoaded \<longrightarrow> loading_state it = Some NotLoaded)))"

text \<open>
  Between two views: the root and the items of the first stay, with their loading
  states, and what is new lies at fresh addresses and is \<^verbatim>\<open>NotLoaded\<close>.
\<close>

definition keeps :: "AssetTreeView \<Rightarrow> AssetTreeView \<Rightarrow> bool" where
  "keeps v v' \<longleftrightarrow>
     root_item v' = root_item v \<and> next_id v \<le> next_id v' \<and>
     (\<forall>n it. items v n = Some it \<longrightarrow>
        (\<exists>it'. items v' n = Some it' \<and> loading_state it' = loading_state it)) \<and>
     (\<forall>n it'. items v' n = Some it' \<longrightarrow>
        items v n \<noteq> None \<or>
        (next_id v \<le> n \<and> n < next_id v' \<and> loading_state it' = Some NotLoaded))"





text \<open>
  What holds of the rows of assets in a calm run: they are in their normal state and
  not expandable, and a loaded one shows its icon; the items a handed-out
  \<^verbatim>\<open>_append_asset_items\<close> closure is bound to are asset types; the root has no entity
  type.
\<close>

definition leaf_inv :: "AssetTreeView \<Rightarrow> bool" where
  "leaf_inv v \<longleftrightarrow>
     (\<forall>n it. items v n = Some it \<and> entity_type it = Some AssetName \<longrightarrow>
        item_state it = Normal \<and> expandable it = Some False \<and>
        (loading_state it = Some Loaded \<longrightarrow> has_icon it)) \<and>
     (\<forall>n ety. AppendAssetItems n ety \<in> set (handed_out v) \<longrightarrow>
        n < next_id v \<and> (\<forall>it. items v n = Some it \<longrightarrow> entity_type it = Some AssetType)) \<and>
     (\<forall>r. items v (root_item v) = Some r \<longrightarrow> entity_type r = None)"


section \<open>Properties of the icon manager\<close>

lemma request_icon_cached_once:
  "loaded_icons m (id' a) = Some ic \<Longrightarrow>
   request_icon cb a m = m\<lparr>calls := calls m @ [(cb, ic)]\<rparr>"
  by (simp add: request_icon_def)

lemma request_icon_pending:
  "requests m (id' a) = Some cb0 \<Longrightarrow> loaded_icons m (id' a) = None \<Longrightarrow> request_icon cb a m = m"
  by (simp add: request_icon_def)

lemma requests_step:
  "requests m k = Some cb \<Longrightarrow> e \<noteq> ClearCache \<Longrightarrow> requests (icon_step e m) k = Some cb"
  by (cases e)
    (auto simp: request_icon_def loader_get_def loader_finish_def deliver_signal_def
      on_pixmap_loaded_def apply_icon_def Let_def
      split: option.splits list.splits sum.splits prod.splits)

lemma requests_run:
  "requests m k = Some cb \<Longrightarrow> ClearCache \<notin> set es \<Longrightarrow> requests (icon_run es m) k = Some cb"
  by (induction es arbitrary: m) (auto simp: requests_step)

lemma icon_inv_init: "icon_inv IconManager_init"
  by (simp add: icon_inv_def IconManager_init_def)

lemma icon_inv_request:
  assumes inv: "icon_inv m"
  shows "icon_inv (request_icon cb a m)"
proof (cases "loaded_icons m (id' a)")
  case (Some ic)
  with inv show ?thesis
    by (simp add: request_icon_def icon_inv_def)
next
  case None
  show ?thesis
  proof (cases "requests m (id' a)")
    case (Some cb0)
    with None inv show ?thesis
      by (simp add: request_icon_def)
  next
    case no_req: None
    have m': "request_icon cb a m =
        m\<lparr>requests := (requests m)(id' a \<mapsto> cb), queue := a # queue m\<rparr>"
      using None no_req by (simp add: request_icon_def)
    have d: "distinct (map id' (queue m @ fetches m))"
      and s: "id' ` set (queue m @ fetches m) = dom (requests m)"
      and f: "set (fetching m) \<subseteq> set (fetches m)"
      using inv by (simp_all add: icon_inv_def)
    from no_req have "id' a \<notin> dom (requests m)"
      by (simp add: domIff)
    with s have fresh: "id' a \<notin> id' ` set (queue m @ fetches m)"
      by simp
    have "distinct (map id' ((a # queue m) @ fetches m))"
      using d fresh by auto
    moreover have "id' ` set ((a # queue m) @ fetches m) = dom ((requests m)(id' a \<mapsto> cb))"
      using s by auto
    ultimately show ?thesis
      unfolding m' icon_inv_def using f by simp
  qed
qed

lemma icon_inv_get: "icon_inv m \<Longrightarrow> icon_inv (loader_get m)"
proof (cases "queue m")
  case Nil
  assume "icon_inv m"
  with Nil show ?thesis by (simp add: loader_get_def)
next
  case (Cons a rest)
  assume inv: "icon_inv m"
  have m': "loader_get m =
      m\<lparr>queue := rest, fetching := fetching m @ [a], fetches := fetches m @ [a]\<rparr>"
    by (simp add: loader_get_def Cons)
  have d: "distinct (map id' (a # rest @ fetches m))"
    and s: "id' ` set (a # rest @ fetches m) = dom (requests m)"
    and f: "set (fetching m) \<subseteq> set (fetches m)"
    using inv Cons by (simp_all add: icon_inv_def)
  have "distinct (map id' (rest @ fetches m @ [a]))"
    using d by auto
  moreover have "id' ` set (rest @ fetches m @ [a]) = dom (requests m)"
    using s by auto
  moreover have "set (fetching m @ [a]) \<subseteq> set (fetches m @ [a])"
    using f by auto
  ultimately show ?thesis
    unfolding m' icon_inv_def by simp
qed

lemma icon_inv_finish: "icon_inv m \<Longrightarrow> icon_inv (loader_finish i outcome m)"
  by (auto simp: icon_inv_def loader_finish_def Let_def split: sum.splits
      dest: in_set_takeD in_set_dropD)

lemma icon_inv_deliver: "icon_inv m \<Longrightarrow> icon_inv (deliver_signal m)"
  by (auto simp: icon_inv_def deliver_signal_def on_pixmap_loaded_def apply_icon_def
      split: list.splits sum.splits prod.splits option.splits)

lemma icon_inv_step: "icon_inv m \<Longrightarrow> e \<noteq> ClearCache \<Longrightarrow> icon_inv (icon_step e m)"
  by (cases e) (simp_all add: icon_inv_request icon_inv_get icon_inv_finish icon_inv_deliver)

lemma icon_inv_run: "icon_inv m \<Longrightarrow> ClearCache \<notin> set es \<Longrightarrow> icon_inv (icon_run es m)"
  by (induction es arbitrary: m) (auto simp: icon_inv_step)

lemma one_entry_of_distinct:
  "distinct (map f xs) \<Longrightarrow> k \<in> f ` set xs \<Longrightarrow> length (filter (\<lambda>x. f x = k) xs) = 1"
proof (induction xs)
  case Nil
  then show ?case by simp
next
  case (Cons x xs)
  show ?case
  proof (cases "f x = k")
    case True
    with Cons.prems(1) have "\<forall>y \<in> set xs. f y \<noteq> k"
      by (auto simp: image_iff)
    then have "filter (\<lambda>y. f y = k) xs = []"
      by (simp add: filter_empty_conv)
    with True show ?thesis by simp
  next
    case False
    with Cons show ?thesis by auto
  qed
qed

text \<open>
  C8. Once an identifier is in the icon cache, any number of \<^verbatim>\<open>request_icon\<close> calls
  for it, by any callers, each invoke their callback on the spot with the cached icon:
  the manager afterwards is the manager before with these invocations added, so the
  queue, the request records and the cache are as they were and no load is issued.
\<close>

theorem request_icon_cached:
  assumes "loaded_icons m k = Some ic"
    and "\<forall>(cb, a) \<in> set reqs. id' a = k"
  shows "fold (\<lambda>(cb, a). request_icon cb a) reqs m =
    m\<lparr>calls := calls m @ map (\<lambda>(cb, a). (cb, ic)) reqs\<rparr>"
  using assms
proof (induction reqs arbitrary: m)
  case Nil
  then show ?case by simp
next
  case (Cons r reqs)
  obtain cb a where r: "r = (cb, a)" by (cases r)
  from Cons.prems r have k: "id' a = k" by simp
  have step: "request_icon cb a m = m\<lparr>calls := calls m @ [(cb, ic)]\<rparr>"
    using Cons.prems(1) k by (simp add: request_icon_cached_once)
  have "loaded_icons (m\<lparr>calls := calls m @ [(cb, ic)]\<rparr>) k = Some ic"
    using Cons.prems(1) by simp
  from Cons.IH [OF this] Cons.prems(2) show ?case
    by (simp add: r step)
qed

theorem request_icon_cached_witness:
  "fold (\<lambda>(cb, a). request_icon cb a)
     [(2, \<lparr>id' = IntId 7, type = ''Prop'', name = ''chair'', icon = None, details = None\<rparr>),
      (3, \<lparr>id' = IntId 7, type = ''Prop'', name = ''chair'', icon = Some 5, details = None\<rparr>)]
     (icon_run
       [RequestIcon 1 \<lparr>id' = IntId 7, type = ''Prop'', name = ''chair'', icon = None, details = None\<rparr>,
        LoaderGet, LoaderFinish 0 (Inr (Some 5)), DeliverSignal] IconManager_init) =
   \<lparr>queue = [], loaded_icons = [IntId 7 \<mapsto> QIcon (Some 5)], requests = [IntId 7 \<mapsto> 1],
    fetching = [], signals = [],
    fetches = [\<lparr>id' = IntId 7, type = ''Prop'', name = ''chair'', icon = None, details = None\<rparr>],
    calls = [(1, QIcon (Some 5)), (2, QIcon (Some 5)), (3, QIcon (Some 5))], icon_log = []\<rparr>"
  using request_icon_cached [of
      "icon_run
       [RequestIcon 1 \<lparr>id' = IntId 7, type = ''Prop'', name = ''chair'', icon = None, details = None\<rparr>,
        LoaderGet, LoaderFinish 0 (Inr (Some 5)), DeliverSignal] IconManager_init"
      "IntId 7" "QIcon (Some 5)"
      "[(2, \<lparr>id' = IntId 7, type = ''Prop'', name = ''chair'', icon = None, details = None\<rparr>),
      (3, \<lparr>id' = IntId 7, type = ''Prop'', name = ''chair'', icon = Some 5, details = None\<rparr>)]"]
  by (simp add: request_icon_def loader_get_def loader_finish_def deliver_signal_def
      on_pixmap_loaded_def apply_icon_def IconManager_init_def Let_def)

lemma distinct_map_remove_nth:
  "distinct (map f xs) \<Longrightarrow> distinct (map f (take i xs @ drop (Suc i) xs))"
proof (cases "i < length xs")
  case True
  assume d: "distinct (map f xs)"
  have "xs = take i xs @ xs ! i # drop (Suc i) xs"
    using True by (simp add: id_take_nth_drop)
  then have "distinct (map f (take i xs @ xs ! i # drop (Suc i) xs))"
    using d by simp
  then show ?thesis by auto
next
  case False
  assume "distinct (map f xs)"
  with False show ?thesis by simp
qed

lemma loads_inv_step: "loads_inv m \<Longrightarrow> e \<noteq> ClearCache \<Longrightarrow> loads_inv (icon_step e m)"
proof -
  assume inv: "loads_inv m" and e: "e \<noteq> ClearCache"
  then have i1: "icon_inv (icon_step e m)"
    by (simp add: loads_inv_def icon_inv_step)
  have d: "distinct (map id' (fetching m))" using inv by (simp add: loads_inv_def)
  have "distinct (map id' (fetching (icon_step e m)))"
  proof (cases e)
    case (RequestIcon cb a)
    then show ?thesis using d
      by (simp add: request_icon_def Let_def split: option.splits)
  next
    case LoaderGet
    show ?thesis
    proof (cases "queue m")
      case Nil
      then show ?thesis using d LoaderGet by (simp add: loader_get_def)
    next
      case (Cons a rest)
      have "id' a \<notin> id' ` set (fetches m)"
        using inv Cons by (auto simp: loads_inv_def icon_inv_def)
      moreover have "set (fetching m) \<subseteq> set (fetches m)"
        using inv by (simp add: loads_inv_def icon_inv_def)
      ultimately have "id' a \<notin> id' ` set (fetching m)" by blast
      then show ?thesis using d LoaderGet Cons by (simp add: loader_get_def)
    qed
  next
    case (LoaderFinish i outcome)
    then show ?thesis using d distinct_map_remove_nth [OF d, of i]
      by (simp add: loader_finish_def Let_def split: sum.splits)
  next
    case DeliverSignal
    then show ?thesis using d
      by (auto simp: deliver_signal_def on_pixmap_loaded_def apply_icon_def
          split: list.splits sum.splits prod.splits option.splits)
  next
    case ClearCache
    with e show ?thesis by simp
  qed
  with i1 show ?thesis by (simp add: loads_inv_def)
qed

lemma loads_inv_run: "loads_inv m \<Longrightarrow> ClearCache \<notin> set es \<Longrightarrow> loads_inv (icon_run es m)"
  by (induction es arbitrary: m) (auto simp: loads_inv_step)

lemma entries_le_one: "distinct (map id' xs) \<Longrightarrow> entries k xs \<le> 1"
proof (cases "k \<in> id' ` set xs")
  case True
  assume "distinct (map id' xs)"
  from one_entry_of_distinct [OF this True] show ?thesis by (simp add: entries_def)
next
  case False
  then have "filter (\<lambda>x. id' x = k) xs = []"
    by (auto simp: filter_empty_conv)
  then show ?thesis by (simp add: entries_def)
qed

text \<open>
  C2 (as amended). A \<^verbatim>\<open>request_icon\<close> call for an identifier with a recorded request
  enqueues nothing, issues no load and leaves the records alone, in whatever state the
  manager is. And in every run of the manager from its initial state that does not clear
  the cache (requests by any callers, loaders taking assets and finishing in any order
  with any outcome, signal deliveries): at any time no identifier has more than one
  entry among the queued assets and the running loads; every identifier with a recorded
  request has exactly one entry among the queued assets and the loads issued so far,
  however often it was requested, and every other identifier has none.
\<close>

theorem request_icon_dedup:
  assumes "ClearCache \<notin> set es" and "m = icon_run es IconManager_init"
  shows "(\<forall>k. entries k (queue m @ fetching m) \<le> 1) \<and>
    (\<forall>k. entries k (queue m @ fetches m) = (if k \<in> dom (requests m) then 1 else 0)) \<and>
    (\<forall>cb a m'. id' a \<in> dom (requests m') \<longrightarrow>
       queue (request_icon cb a m') = queue m' \<and> requests (request_icon cb a m') = requests m' \<and>
       fetches (request_icon cb a m') = fetches m' \<and>
       fetching (request_icon cb a m') = fetching m')"
proof -
  have "loads_inv IconManager_init"
    by (simp add: loads_inv_def icon_inv_init) (simp add: IconManager_init_def)
  then have inv: "loads_inv m"
    using assms by (simp add: loads_inv_run)
  then have d: "distinct (map id' (queue m @ fetches m))"
    and s: "id' ` set (queue m @ fetches m) = dom (requests m)"
    and f: "set (fetching m) \<subseteq> set (fetches m)"
    and df: "distinct (map id' (fetching m))"
    by (simp_all add: loads_inv_def icon_inv_def)
  have "distinct (map id' (queue m @ fetching m))"
    using d df f by auto
  then have a: "\<forall>k. entries k (queue m @ fetching m) \<le> 1"
    using entries_le_one by blast
  have b: "entries k (queue m @ fetches m) = (if k \<in> dom (requests m) then 1 else 0)" for k
  proof (cases "k \<in> dom (requests m)")
    case True
    with s have "k \<in> id' ` set (queue m @ fetches m)" by simp
    from one_entry_of_distinct [OF d this] True show ?thesis by (simp add: entries_def)
  next
    case False
    with s have "k \<notin> id' ` set (queue m @ fetches m)" by simp
    then have "filter (\<lambda>x. id' x = k) (queue m @ fetches m) = []"
      unfolding filter_empty_conv by blast
    with False show ?thesis by (simp add: entries_def)
  qed
  have c: "\<forall>cb a m'. id' a \<in> dom (requests m') \<longrightarrow>
       queue (request_icon cb a m') = queue m' \<and> requests (request_icon cb a m') = requests m' \<and>
       fetches (request_icon cb a m') = fetches m' \<and>
       fetching (request_icon cb a m') = fetching m'"
    by (auto simp: request_icon_def Let_def split: option.splits)
  from a b c show ?thesis by blast
qed


theorem request_icon_dedup_witness:
  "(let m = icon_run
      [RequestIcon 1 \<lparr>id' = IntId 7, type = ''Prop'', name = ''chair'', icon = None, details = None\<rparr>,
       RequestIcon 2 \<lparr>id' = IntId 7, type = ''Prop'', name = ''chair'', icon = None, details = None\<rparr>,
       LoaderGet,
       RequestIcon 3 \<lparr>id' = IntId 7, type = ''Prop'', name = ''chair'', icon = None, details = None\<rparr>]
      IconManager_init
    in queue m = [] \<and> map id' (fetches m) = [IntId 7] \<and> entries (IntId 7) (queue m @ fetches m) = 1 \<and>
       entries (IntId 7) (queue m @ fetching m) \<le> 1)"
  using request_icon_dedup [of
     "[RequestIcon 1 \<lparr>id' = IntId 7, type = ''Prop'', name = ''chair'', icon = None, details = None\<rparr>,
       RequestIcon 2 \<lparr>id' = IntId 7, type = ''Prop'', name = ''chair'', icon = None, details = None\<rparr>,
       LoaderGet,
       RequestIcon 3 \<lparr>id' = IntId 7, type = ''Prop'', name = ''chair'', icon = None, details = None\<rparr>]"
      "icon_run
      [RequestIcon 1 \<lparr>id' = IntId 7, type = ''Prop'', name = ''chair'', icon = None, details = None\<rparr>,
       RequestIcon 2 \<lparr>id' = IntId 7, type = ''Prop'', name = ''chair'', icon = None, details = None\<rparr>,
       LoaderGet,
       RequestIcon 3 \<lparr>id' = IntId 7, type = ''Prop'', name = ''chair'', icon = None, details = None\<rparr>]
      IconManager_init"]
  by (simp add: request_icon_def loader_get_def IconManager_init_def entries_def Let_def)

text \<open>
  C2 as stated fails: \<^verbatim>\<open>clear_cache()\<close> drops the request records and leaves the
  queue, so an asset requested before and after it, with the first load not yet begun,
  is queued twice and loaded twice.
\<close>

theorem clear_cache_requeues:
  "map id' (queue (icon_run
      [RequestIcon 1 \<lparr>id' = IntId 7, type = ''Prop'', name = ''chair'', icon = None, details = None\<rparr>,
       ClearCache,
       RequestIcon 2 \<lparr>id' = IntId 7, type = ''Prop'', name = ''chair'', icon = None, details = None\<rparr>]
      IconManager_init)) = [IntId 7, IntId 7] \<and>
   map id' (fetches (icon_run
      [RequestIcon 1 \<lparr>id' = IntId 7, type = ''Prop'', name = ''chair'', icon = None, details = None\<rparr>,
       ClearCache,
       RequestIcon 2 \<lparr>id' = IntId 7, type = ''Prop'', name = ''chair'', icon = None, details = None\<rparr>,
       LoaderGet, LoaderGet]
      IconManager_init)) = [IntId 7, IntId 7]"
  by (simp add: request_icon_def clear_cache_def loader_get_def IconManager_init_def Let_def)

text \<open>
  C3 (as amended). When an asset that is neither cached nor requested is requested with
  callback \<open>cb1\<close>, the record for its identifier holds \<open>cb1\<close> through every later
  run that does not clear the cache, whoever requests the same identifier meanwhile; and
  when the load completes it is \<open>cb1\<close>, the callback registered first, that is invoked
  with the icon, once.
\<close>

theorem first_callback_retained:
  assumes "loaded_icons m (id' a) = None" and "requests m (id' a) = None"
    and "ClearCache \<notin> set es" and "id' a2 = id' a"
    and "m1 = icon_run es (request_icon cb1 a m)"
  shows "requests m1 (id' a) = Some cb1 \<and>
    (\<exists>m2. on_pixmap_loaded a2 pm m1 = Inr m2 \<and> calls m2 = calls m1 @ [(cb1, QIcon pm)])"
proof -
  have "requests (request_icon cb1 a m) (id' a) = Some cb1"
    using assms(1,2) by (simp add: request_icon_def)
  then have r: "requests m1 (id' a) = Some cb1"
    using assms(3,5) by (simp add: requests_run)
  then show ?thesis
    using assms(4) by (simp add: on_pixmap_loaded_def apply_icon_def)
qed

text \<open>
  C3 as stated fails: callers 1 and 2 request asset 7 in this order before the load
  completes; the one invocation made when it completes is caller 1's, not the one of
  caller 2, who registered last.
\<close>

theorem last_callback_dropped:
  "calls (icon_run
      [RequestIcon 1 \<lparr>id' = IntId 7, type = ''Prop'', name = ''chair'', icon = None, details = None\<rparr>,
       RequestIcon 2 \<lparr>id' = IntId 7, type = ''Prop'', name = ''chair'', icon = None, details = None\<rparr>,
       LoaderGet, LoaderFinish 0 (Inr (Some 5)), DeliverSignal]
      IconManager_init) = [(1, QIcon (Some 5))]"
  by (simp add: request_icon_def loader_get_def loader_finish_def deliver_signal_def
      on_pixmap_loaded_def apply_icon_def IconManager_init_def Let_def)

theorem first_callback_retained_witness:
  "requests (icon_run
      [RequestIcon 2 \<lparr>id' = IntId 7, type = ''Prop'', name = ''chair'', icon = None, details = None\<rparr>, LoaderGet, LoaderFinish 0 (Inr (Some 5))]
    (request_icon 1 \<lparr>id' = IntId 7, type = ''Prop'', name = ''chair'', icon = None, details = None\<rparr> IconManager_init)) (IntId 7) = Some 1"
  using first_callback_retained [of IconManager_init
     "\<lparr>id' = IntId 7, type = ''Prop'', name = ''chair'', icon = None, details = None\<rparr>"
     "[RequestIcon 2 \<lparr>id' = IntId 7, type = ''Prop'', name = ''chair'', icon = None, details = None\<rparr>, LoaderGet, LoaderFinish 0 (Inr (Some 5))]"
     "\<lparr>id' = IntId 7, type = ''Prop'', name = ''chair'', icon = None, details = None\<rparr>" _ 1]
  by (simp add: IconManager_init_def)

section \<open>Properties of the request runner\<close>

lemma rt_run_append: "rt_run (es @ es') rt = rt_run es' (rt_run es rt)"
  by (induction es arbitrary: rt) auto

lemma rt_final_step:
  "pool rt = [] \<Longrightarrow> ui_queue rt = [] \<Longrightarrow> rt_step e rt = rt"
  by (cases e) (simp_all add: pool_run_def ui_deliver_def)

lemma rt_final_run:
  "pool rt = [] \<Longrightarrow> ui_queue rt = [] \<Longrightarrow> rt_run es rt = rt"
  by (induction es) (simp_all add: rt_final_step)

lemma rt_posted_run:
  assumes "rt = \<lparr>pool = [], ui_queue = [(cb, v)], invoked = [], logged = []\<rparr>"
  shows "rt_run es rt = rt \<or> rt_run es rt = \<lparr>pool = [], ui_queue = [], invoked = [(cb, v)], logged = []\<rparr>"
  using assms
proof (induction es arbitrary: rt)
  case Nil
  then show ?case by simp
next
  case (Cons e es)
  show ?case
  proof (cases e)
    case (PoolRun i w)
    then have "rt_step e rt = rt" using Cons.prems by (simp add: pool_run_def)
    with Cons show ?thesis by simp
  next
    case UiDeliver
    then have "rt_step e rt = \<lparr>pool = [], ui_queue = [], invoked = [(cb, v)], logged = []\<rparr>"
      using Cons.prems by (simp add: ui_deliver_def)
    then show ?thesis by (simp add: rt_final_run)
  qed
qed

text \<open>The shapes a runtime that was handed one runnable can take.\<close>

lemma rt_submitted_run:
  fixes req :: "'w \<Rightarrow> py_exception + 'r"
  assumes "rt = execute req cb rt_init"
  shows "rt_run es rt = rt \<or>
    (\<exists>w v. req w = Inr v \<and>
       (rt_run es rt = \<lparr>pool = [], ui_queue = [(cb, v)], invoked = [], logged = []\<rparr> \<or>
        rt_run es rt = \<lparr>pool = [], ui_queue = [], invoked = [(cb, v)], logged = []\<rparr>)) \<or>
    (\<exists>w e. req w = Inl e \<and> rt_run es rt = \<lparr>pool = [], ui_queue = [], invoked = [], logged = [e]\<rparr>)"
  using assms
proof (induction es)
  case Nil
  then show ?case by simp
next
  case (Cons e es)
  have rt: "rt = \<lparr>pool = [\<lparr>request = req, callback = cb\<rparr>], ui_queue = [], invoked = [], logged = []\<rparr>"
    using Cons.prems by (simp add: execute_def rt_init_def)
  show ?case
  proof (cases e)
    case UiDeliver
    then have "rt_step e rt = rt" using rt by (simp add: ui_deliver_def)
    with Cons show ?thesis by simp
  next
    case (PoolRun i w)
    show ?thesis
    proof (cases "i = 0")
      case False
      then have "rt_step e rt = rt" using rt PoolRun by (simp add: pool_run_def)
      with Cons show ?thesis by simp
    next
      case True
      show ?thesis
      proof (cases "req w")
        case (Inl x)
        then have "rt_step e rt = \<lparr>pool = [], ui_queue = [], invoked = [], logged = [x]\<rparr>"
          using rt PoolRun True by (simp add: pool_run_def run_def)
        then have "rt_run (e # es) rt = \<lparr>pool = [], ui_queue = [], invoked = [], logged = [x]\<rparr>"
          by (simp add: rt_final_run)
        with Inl show ?thesis by blast
      next
        case (Inr v)
        then have s: "rt_step e rt = \<lparr>pool = [], ui_queue = [(cb, v)], invoked = [], logged = []\<rparr>"
          using rt PoolRun True by (simp add: pool_run_def run_def InvokeMethod_def)
        from rt_posted_run [OF refl, where cb = cb and v = v and es = es] s Inr show ?thesis
          by auto
      qed
    qed
  qed
qed

text \<open>
  C7. A unit of work and a callback are handed to the runner of a fresh runtime. Once a
  pool thread has run the work and the main thread has handled its queue, whatever
  happens afterwards: if the work returned, the callback has been invoked on the main
  thread exactly once, with the result, and nothing is logged; if the work raised, the
  exception is logged and the callback has not been invoked. And under every schedule
  of pool threads and event loop: the callback is invoked at most once, only with a
  result the work returned and with nothing logged, and a logged exception is one the
  work raised, with the callback never invoked.
\<close>

theorem request_runnable_callback:
  fixes req :: "'w \<Rightarrow> py_exception + 'r"
  shows "(let rt = rt_run (PoolRun 0 w # UiDeliver # es) (execute req cb rt_init) in
      case req w of
        Inr v \<Rightarrow> invoked rt = [(cb, v)] \<and> logged rt = []
      | Inl e \<Rightarrow> invoked rt = [] \<and> logged rt = [e]) \<and>
    (let rt = rt_run es (execute req cb rt_init) in
      (invoked rt = [] \<or> (\<exists>w v. req w = Inr v \<and> invoked rt = [(cb, v)] \<and> logged rt = [])) \<and>
      (logged rt = [] \<or> (\<exists>w e. req w = Inl e \<and> logged rt = [e] \<and> invoked rt = [])))"
proof -
  have a: "(case req w of
        Inr v \<Rightarrow> invoked (rt_run (PoolRun 0 w # UiDeliver # es) (execute req cb rt_init)) = [(cb, v)]
           \<and> logged (rt_run (PoolRun 0 w # UiDeliver # es) (execute req cb rt_init)) = []
      | Inl e \<Rightarrow> invoked (rt_run (PoolRun 0 w # UiDeliver # es) (execute req cb rt_init)) = []
           \<and> logged (rt_run (PoolRun 0 w # UiDeliver # es) (execute req cb rt_init)) = [e])"
    by (simp add: execute_def rt_init_def pool_run_def run_def InvokeMethod_def ui_deliver_def
        rt_final_run split: sum.splits)
  have b: "(invoked (rt_run es (execute req cb rt_init)) = [] \<or>
        (\<exists>w v. req w = Inr v \<and> invoked (rt_run es (execute req cb rt_init)) = [(cb, v)]
           \<and> logged (rt_run es (execute req cb rt_init)) = [])) \<and>
      (logged (rt_run es (execute req cb rt_init)) = [] \<or>
        (\<exists>w e. req w = Inl e \<and> logged (rt_run es (execute req cb rt_init)) = [e]
           \<and> invoked (rt_run es (execute req cb rt_init)) = []))"
    using rt_submitted_run [OF refl, where req = req and cb = cb and es = es]
    by (auto simp: execute_def rt_init_def)
  show ?thesis unfolding Let_def using a b by blast
qed

section \<open>Properties of the hook accessor\<close>

lemma accessor_call_no_project:
  "project acc = None \<Longrightarrow> accessor_call q cb acc rt = rt"
  by (cases q)
    (simp_all add: request_asset_types_def request_assets_def request_assets_by_regex_def
      request_asset_details_def)

lemma accessor_call_project:
  "project acc = Some p \<Longrightarrow> accessor_call q cb acc rt = execute (accessor_work q) cb rt"
  by (cases q)
    (simp_all add: request_asset_types_def request_assets_def request_assets_by_regex_def
      request_asset_details_def)

lemma settled_execute:
  "rt_run (PoolRun 0 w # UiDeliver # es) (execute req cb rt_init) =
     (case req w of
        Inr v \<Rightarrow> \<lparr>pool = [], ui_queue = [], invoked = [(cb, v)], logged = []\<rparr>
      | Inl e \<Rightarrow> \<lparr>pool = [], ui_queue = [], invoked = [], logged = [e]\<rparr>)"
  by (simp add: execute_def rt_init_def pool_run_def run_def InvokeMethod_def ui_deliver_def
      rt_final_run split: sum.splits)

lemma list_request_cases:
  "list_request h args (acc, hooks) =
     (case hooks h (project acc) args of
        Inr v \<Rightarrow> Inr (if truthy v then v else PyList [])
      | Inl e \<Rightarrow> if hook_lookup_error e then Inr (PyList []) else Inl e)"
  by (simp add: list_request_def hook_lookup_error_def split: sum.splits py_exception.splits)

lemma details_request_cases:
  "details_request a (acc, hooks) =
     (case hooks ''bd.loader.get_assets_details'' (project acc) [ArgAsset a] of
        Inr v \<Rightarrow> Inr v
      | Inl e \<Rightarrow> if hook_lookup_error e then Inr PyNone else Inl e)"
  by (simp add: details_request_def hook_lookup_error_def split: sum.splits py_exception.splits)

lemma accessor_work_cases:
  "accessor_work q (acc, hooks) =
     (case hooks (accessor_hook q) (project acc) (accessor_args q) of
        Inr v \<Rightarrow>
          Inr (case q of AssetDetailsOf a \<Rightarrow> v | _ \<Rightarrow> if truthy v then v else PyList [])
      | Inl e \<Rightarrow> if hook_lookup_error e then Inr (empty_result q) else Inl e)"
  by (cases q) (simp_all add: list_request_cases details_request_cases split: sum.splits)

text \<open>
  C1 (as amended). A request method of an accessor with an active project hands its
  work to the runner and returns. Once a pool thread has run the work and the main
  thread has handled its queue, the callback has been invoked exactly once: with what
  the hook returned (for the three list requests an empty list when that is
  \<^verbatim>\<open>None\<close> or empty), or with the empty result (an empty list, \<^verbatim>\<open>None\<close> for the details)
  when the hook is not registered or the hooks are not loaded. When the hook raises
  anything else the exception is logged and the callback is not invoked. With no active
  project the method returns without handing anything to the runner, so the callback is
  never invoked.
\<close>

theorem accessor_request_callback:
  assumes "project acc = Some p"
  shows "(let rt = rt_run (PoolRun 0 (acc', hooks) # UiDeliver # es) (accessor_call q cb acc rt_init) in
      case hooks (accessor_hook q) (project acc') (accessor_args q) of
        Inr v \<Rightarrow>
          invoked rt =
            [(cb, case q of AssetDetailsOf a \<Rightarrow> v | _ \<Rightarrow> if truthy v then v else PyList [])] \<and>
          logged rt = []
      | Inl e \<Rightarrow>
          if hook_lookup_error e then invoked rt = [(cb, empty_result q)] \<and> logged rt = []
          else invoked rt = [] \<and> logged rt = [e]) \<and>
    accessor_call q cb (acc\<lparr>project := None\<rparr>) rt0 = rt0"
proof -
  have "accessor_call q cb (acc\<lparr>project := None\<rparr>) rt0 = rt0"
    by (simp add: accessor_call_no_project)
  moreover have "rt_run (PoolRun 0 (acc', hooks) # UiDeliver # es) (accessor_call q cb acc rt_init) =
     (case accessor_work q (acc', hooks) of
        Inr v \<Rightarrow> \<lparr>pool = [], ui_queue = [], invoked = [(cb, v)], logged = []\<rparr>
      | Inl e \<Rightarrow> \<lparr>pool = [], ui_queue = [], invoked = [], logged = [e]\<rparr>)"
    using assms by (simp only: accessor_call_project settled_execute)
  ultimately show ?thesis
    by (simp add: accessor_work_cases Let_def split: sum.splits)
qed

theorem accessor_request_callback_witness:
  "invoked (rt_run [PoolRun 0 (\<lparr>project = Some \<lparr>project_id = 1\<rparr>\<rparr>, no_hooks), UiDeliver]
      (accessor_call AssetTypes 1 \<lparr>project = Some \<lparr>project_id = 1\<rparr>\<rparr> rt_init)) = [(1, PyList [])] \<and>
   invoked (rt_run [PoolRun 0 (\<lparr>project = Some \<lparr>project_id = 1\<rparr>\<rparr>, no_hooks), UiDeliver]
      (accessor_call (AssetDetailsOf \<lparr>id' = IntId 7, type = ''Prop'', name = ''chair'', icon = None, details = None\<rparr>) 1
         \<lparr>project = Some \<lparr>project_id = 1\<rparr>\<rparr> rt_init)) = [(1, PyNone)]"
  using accessor_request_callback [where acc = "\<lparr>project = Some \<lparr>project_id = 1\<rparr>\<rparr>"
      and p = "\<lparr>project_id = 1\<rparr>" and acc' = "\<lparr>project = Some \<lparr>project_id = 1\<rparr>\<rparr>"
      and hooks = no_hooks and es = "[]" and q = AssetTypes and cb = 1]
    accessor_request_callback [where acc = "\<lparr>project = Some \<lparr>project_id = 1\<rparr>\<rparr>"
      and p = "\<lparr>project_id = 1\<rparr>" and acc' = "\<lparr>project = Some \<lparr>project_id = 1\<rparr>\<rparr>"
      and hooks = no_hooks and es = "[]" and cb = 1
      and q = "AssetDetailsOf \<lparr>id' = IntId 7, type = ''Prop'', name = ''chair'', icon = None, details = None\<rparr>"]
  by (simp add: no_hooks_def hook_lookup_error_def Let_def)

text \<open>
  C1 as stated fails: on an accessor with no active project
  \<^verbatim>\<open>request_asset_types\<close> starts nothing, and after the pool and the main thread
  have run the callback has not been invoked.
\<close>

theorem no_project_no_callback:
  "invoked (rt_run [PoolRun 0 (\<lparr>project = None\<rparr>, no_hooks), UiDeliver]
      (request_asset_types 1 \<lparr>project = None\<rparr> rt_init)) = []"
  by (simp add: request_asset_types_def rt_init_def pool_run_def ui_deliver_def)

section \<open>Properties of the natural-order sort key\<close>

lemma not_digit_dot: "\<not> is_digit CHR ''.''"
  by (simp add: is_digit_def)

lemma takeWhile_all: "list_all P xs \<Longrightarrow> takeWhile P xs = xs"
  by (induction xs) auto

lemma dropWhile_all: "list_all P xs \<Longrightarrow> dropWhile P xs = []"
  by (induction xs) auto

lemma list_all_takeWhile: "list_all P (takeWhile P xs)"
  by (induction xs) auto

lemma match_number_cases:
  assumes "match_number s = Some (m, rest)"
  shows "m @ rest = s \<and>
    ((m = takeWhile is_digit s \<and> m \<noteq> []) \<or>
     (\<exists>fs. fs \<noteq> [] \<and> list_all is_digit fs \<and> m = takeWhile is_digit s @ CHR ''.'' # fs))"
proof -
  let ?ds = "takeWhile is_digit s" and ?r = "dropWhile is_digit s"
  have s: "?ds @ ?r = s" by simp
  show ?thesis
  proof (cases ?r)
    case Nil
    have "match_number s = (if ?ds \<noteq> [] then Some (?ds, []) else None)"
      unfolding match_number_def Let_def Nil by simp
    with assms have m: "?ds \<noteq> []" "m = ?ds" "rest = []"
      by (simp_all split: if_splits)
    from s have "?ds @ [] = s" unfolding Nil .
    with m show ?thesis by simp
  next
    case (Cons c r')
    show ?thesis
    proof (cases "c = CHR ''.'' \<and> takeWhile is_digit r' \<noteq> []")
      case True
      have "match_number s = Some (?ds @ c # takeWhile is_digit r', dropWhile is_digit r')"
        unfolding match_number_def Let_def Cons using True by simp
      with assms have m: "m = ?ds @ c # takeWhile is_digit r'" and r: "rest = dropWhile is_digit r'"
        by simp_all
      from s have "?ds @ c # r' = s" unfolding Cons .
      moreover have "takeWhile is_digit r' @ dropWhile is_digit r' = r'" by simp
      ultimately have "m @ rest = s" using m r by simp
      moreover have "list_all is_digit (takeWhile is_digit r')"
        by (rule list_all_takeWhile)
      ultimately show ?thesis using True m by blast
    next
      case False
      have "match_number s = (if ?ds \<noteq> [] then Some (?ds, c # r') else None)"
        unfolding match_number_def Let_def Cons using False by auto
      with assms have m: "?ds \<noteq> []" "m = ?ds" "rest = c # r'"
        by (simp_all split: if_splits)
      from s have "?ds @ c # r' = s" unfolding Cons .
      with m show ?thesis by simp
    qed
  qed
qed

lemma py_float_digits:
  assumes "list_all is_digit m" and "m \<noteq> []"
  shows "py_float m = Inr (of_nat (digits_value m))"
proof -
  have tw: "takeWhile is_digit m = m" and dw: "dropWhile is_digit m = []"
    using assms(1) by (rule takeWhile_all, rule dropWhile_all)
  show ?thesis
    unfolding py_float_def Let_def tw dw using assms(2) by simp
qed

lemma py_float_fraction:
  assumes "list_all is_digit ds" and "list_all is_digit fs" and "fs \<noteq> []"
  shows "py_float (ds @ CHR ''.'' # fs) =
    Inr (of_nat (digits_value ds) + of_nat (digits_value fs) / 10 ^ length fs)"
proof -
  have "\<forall>x \<in> set ds. is_digit x" using assms(1) by (simp add: list_all_iff)
  then have tw: "takeWhile is_digit (ds @ CHR ''.'' # fs) = ds"
    and dw: "dropWhile is_digit (ds @ CHR ''.'' # fs) = CHR ''.'' # fs"
    using not_digit_dot by (simp_all add: takeWhile_append2 dropWhile_append2)
  show ?thesis
    unfolding py_float_def Let_def tw dw using assms(2,3) by simp
qed

lemma match_number_float:
  assumes "match_number s = Some (m, rest)"
  shows "\<exists>v. py_float m = Inr v"
proof -
  from match_number_cases [OF assms]
  consider (int) "m = takeWhile is_digit s" "m \<noteq> []"
    | (frac) fs where "fs \<noteq> []" "list_all is_digit fs" "m = takeWhile is_digit s @ CHR ''.'' # fs"
    by blast
  then show ?thesis
  proof cases
    case int
    have "list_all is_digit m" unfolding int(1) by (rule list_all_takeWhile)
    from py_float_digits [OF this int(2)] show ?thesis by blast
  next
    case frac
    have "list_all is_digit (takeWhile is_digit s)" by (rule list_all_takeWhile)
    from py_float_fraction [OF this frac(2,1)] frac(3) show ?thesis by blast
  qed
qed

lemma match_number_None: "match_number (c # cs) = None \<Longrightarrow> \<not> is_digit c"
  by (auto simp: match_number_def Let_def split: list.splits if_splits)


lemma split_parts_re_split_from:
  "list_all (\<lambda>c. \<not> is_digit c) acc \<Longrightarrow> split_parts False (re_split_from acc s)"
proof (induction acc s rule: re_split_from.induct)
  case (1 acc)
  then show ?case by simp
next
  case (2 acc c cs)
  show ?case
  proof (cases "match_number (c # cs)")
    case None
    then have "\<not> is_digit c" by (rule match_number_None)
    with 2 None show ?thesis by simp
  next
    case (Some mr)
    obtain m rest where mr: "mr = (m, rest)" by (cases mr)
    have "\<exists>v. py_float m = Inr v"
      using Some mr match_number_float by simp
    moreover have "split_parts False (re_split_from [] rest)"
      using 2(2) Some mr by simp
    ultimately show ?thesis using 2(3) Some mr by simp
  qed
qed

lemma human_key_from_parts:
  "split_parts (odd i) parts \<Longrightarrow>
   \<exists>ks. human_key_from i parts = Inr ks \<and> alternating (odd i) ks \<and> length ks = length parts"
proof (induction parts arbitrary: i)
  case Nil
  then show ?case by simp
next
  case (Cons e es)
  from Cons.prems have "split_parts (odd (Suc i)) es" by simp
  from Cons.IH [OF this] obtain ks where ks: "human_key_from (Suc i) es = Inr ks"
    "alternating (odd (Suc i)) ks" "length ks = length es" by blast
  show ?case
  proof (cases "odd i")
    case True
    with Cons.prems obtain v where v: "py_float e = Inr v" by auto
    from True have m: "i mod 2 \<noteq> 0" by presburger
    from True ks(2) have "alternating False ks" by simp
    then have "alternating True (KFloat v # ks)" by simp
    with True ks(1,3) v m show ?thesis by simp
  next
    case False
    then have m: "i mod 2 = 0" by presburger
    from False ks(2) have "alternating True ks" by simp
    then have "alternating False (KStr (swapcase e) # ks)" by simp
    with False ks(1,3) m show ?thesis by simp
  qed
qed

lemma human_key_alternating:
  "\<exists>ks. human_key key = Inr ks \<and> alternating False ks \<and> length ks = length (re_split key)"
  using human_key_from_parts [of 0 "re_split key"] split_parts_re_split_from [of "[]" key]
  by (simp add: human_key_def re_split_def)

lemma alternating_nth:
  "alternating b ks \<Longrightarrow> i < length ks \<Longrightarrow>
   (\<exists>v. ks ! i = KFloat v) = (b \<noteq> odd i) \<and> (\<exists>s. ks ! i = KStr s) = (b = odd i)"
proof (induction ks arbitrary: b i)
  case Nil
  then show ?case by simp
next
  case (Cons k ks)
  have tl: "alternating (\<not> b) ks"
    using Cons.prems(1) by (cases k) auto
  show ?case
  proof (cases i)
    case 0
    with Cons.prems(1) show ?thesis by (cases k) auto
  next
    case (Suc n)
    with Cons.prems(2) have "n < length ks" by simp
    from Cons.IH [OF tl this] Suc show ?thesis by auto
  qed
qed

lemma tuple_gt_alternating:
  "alternating b xs \<Longrightarrow> alternating b ys \<Longrightarrow> \<exists>r. tuple_gt xs ys = Inr r"
proof (induction xs ys arbitrary: b rule: tuple_gt.induct)
  case (1 ys)
  then show ?case by auto
next
  case (2 x xs)
  then show ?case by auto
next
  case (3 x xs y ys)
  show ?case
  proof (cases "elem_eq x y")
    case True
    have "alternating (\<not> b) xs"
      using 3(2) by (cases x) auto
    moreover have "alternating (\<not> b) ys"
      using 3(3) by (cases y) auto
    ultimately show ?thesis using 3(1) [OF True] True by simp
  next
    case False
    have "\<exists>r. elem_gt x y = Inr r"
      using 3(2,3) by (cases x; cases y) auto
    with False show ?thesis by simp
  qed
qed

text \<open>
  C10. For every pair of strings both key tuples are built without an error, each has
  its floats exactly at the odd indices and its strings exactly at the even ones, and
  \<^verbatim>\<open>lessThan\<close> returns a truth value: the tuple comparison never meets a string
  and a number at the same index.
\<close>

theorem human_key_comparable:
  "\<exists>l r b. human_key left_key = Inr l \<and> human_key right_key = Inr r \<and>
     lessThan left_key right_key = Inr b \<and>
     (\<forall>i < length l. (\<exists>v. l ! i = KFloat v) = odd i \<and> (\<exists>s. l ! i = KStr s) = even i) \<and>
     (\<forall>i < length r. (\<exists>v. r ! i = KFloat v) = odd i \<and> (\<exists>s. r ! i = KStr s) = even i)"
proof -
  obtain l where l: "human_key left_key = Inr l" "alternating False l"
    using human_key_alternating by blast
  obtain r where r: "human_key right_key = Inr r" "alternating False r"
    using human_key_alternating by blast
  obtain b where b: "tuple_gt l r = Inr b"
    using tuple_gt_alternating [OF l(2) r(2)] by blast
  have "lessThan left_key right_key = Inr b"
    using l r b by (simp add: lessThan_def)
  moreover have "\<forall>i < length l. (\<exists>v. l ! i = KFloat v) = odd i \<and> (\<exists>s. l ! i = KStr s) = even i"
    using alternating_nth [OF l(2)] by simp
  moreover have "\<forall>i < length r. (\<exists>v. r ! i = KFloat v) = odd i \<and> (\<exists>s. r ! i = KStr s) = even i"
    using alternating_nth [OF r(2)] by simp
  ultimately show ?thesis using l r by blast
qed

theorem human_key_comparable_witness:
  "lessThan ''v1.5'' ''v10b'' = Inr False \<and>
   human_key ''v1.5'' = Inr [KStr ''V'', KFloat (3 / 2), KStr []] \<and>
   human_key ''v10b'' = Inr [KStr ''V'', KFloat 10, KStr ''B'']"
  using human_key_comparable [of "''v1.5''" "''v10b''"]
  by (simp add: shown_before_def lessThan_def human_key_def re_split_def match_number_def
      Let_def is_digit_def py_float_def digits_value_def swapcase_def swapcase_char_def)










section \<open>Properties of the row constructor\<close>

lemma AssetInfo_init_level:
  "AssetInfo_init [(''id'', i), (''type'', t), (''name'', n), (''level'', l), (''category'', c)] =
     Inl (TypeError ''__init__() got an unexpected keyword argument level'')"
  by (simp add: AssetInfo_init_def dataclass_init_def AssetInfo_fields_def)

text \<open>Whatever the row, the constructor call raises: no \<^verbatim>\<open>AssetInfo\<close> is built.\<close>

lemma create_asset_info_never_returns:
  "\<exists>e. create_asset_info_from_db_item item = Inl e"
  by (simp add: create_asset_info_from_db_item_def AssetInfo_init_level split: option.splits)

text \<open>Without the two keywords the same row is accepted, and the instance has no level.\<close>

lemma AssetInfo_init_accepts:
  "\<exists>obj. AssetInfo_init [(''id'', JInt 1), (''type'', JStr ''Prop''), (''name'', JStr ''chair'')] = Inr obj
    \<and> obj ''icon'' = Some JNull \<and> obj ''level'' = None"
  by (simp add: AssetInfo_init_def dataclass_init_def AssetInfo_fields_def)


section \<open>Properties of the filter\<close>

lemma accepted_iff:
  "accepted found pattern r \<longleftrightarrow>
     filterAcceptsRow found pattern r \<or>
     (\<exists>d \<in> set (descendants r). filterAcceptsRow found pattern d)"
proof (induction r)
  case (Row k cs)
  have "(\<exists>c \<in> set cs. accepted found pattern c) \<longleftrightarrow>
      (\<exists>d \<in> set (descendants (Row k cs)). filterAcceptsRow found pattern d)"
    using Row by auto
  then show ?case by simp
qed

lemma descendants_trans:
  "d \<in> set (descendants r) \<Longrightarrow> e \<in> set (descendants d) \<Longrightarrow> e \<in> set (descendants r)"
proof (induction r)
  case (Row k cs)
  from Row.prems(1) obtain c where c: "c \<in> set cs" "d = c \<or> d \<in> set (descendants c)"
    by auto
  then have "e \<in> set (descendants c)"
    using Row.IH Row.prems(2) by blast
  with c(1) show ?case by auto
qed

lemma child_is_descendant: "c \<in> set (child_rows r) \<Longrightarrow> c \<in> set (descendants r)"
  by (cases r) auto

lemma row_at_descendant:
  "row_at (child_rows r) path = Some d \<Longrightarrow> d \<in> set (descendants r)"
proof (induction path arbitrary: r)
  case Nil
  then show ?case by simp
next
  case (Cons i path)
  from Cons.prems have i: "i < length (child_rows r)"
    by (simp split: if_splits)
  then have c: "child_rows r ! i \<in> set (descendants r)"
    by (simp add: child_is_descendant)
  show ?case
  proof (cases "path = []")
    case True
    with Cons.prems i c show ?thesis by simp
  next
    case False
    with Cons.prems i have "row_at (child_rows (child_rows r ! i)) path = Some d" by simp
    from Cons.IH [OF this] c show ?thesis by (rule descendants_trans [rotated])
  qed
qed

lemma accepted_up:
  "d \<in> set (descendants r) \<Longrightarrow> accepted found pattern d \<Longrightarrow> accepted found pattern r"
  unfolding accepted_iff [of found pattern r] accepted_iff [of found pattern d]
  using descendants_trans by blast

lemma shown_iff:
  "shown found pattern rows path \<longleftrightarrow>
     (\<exists>r. row_at rows path = Some r \<and> accepted found pattern r)"
proof (induction path arbitrary: rows)
  case Nil
  then show ?case by simp
next
  case (Cons i path)
  show ?case
  proof (cases "i < length rows")
    case False
    then show ?thesis by simp
  next
    case True
    show ?thesis
    proof (cases "path = []")
      case True
      with \<open>i < length rows\<close> show ?thesis by simp
    next
      case False
      have "accepted found pattern (rows ! i)"
        if "row_at (child_rows (rows ! i)) path = Some r" "accepted found pattern r" for r
        using that row_at_descendant accepted_up by blast
      with Cons.IH [of "child_rows (rows ! i)"] True False show ?thesis
        by auto
    qed
  qed
qed

lemma row_at_take:
  "row_at rows path = Some r \<Longrightarrow> 0 < n \<Longrightarrow> n < length path \<Longrightarrow>
   \<exists>a. row_at rows (take n path) = Some a \<and> r \<in> set (descendants a)"
proof (induction path arbitrary: rows n)
  case Nil
  then show ?case by simp
next
  case (Cons i path)
  from Cons.prems(1) have i: "i < length rows" by (simp split: if_splits)
  from Cons.prems(2,3) have ne: "path \<noteq> []" by auto
  with Cons.prems(1) i have below: "row_at (child_rows (rows ! i)) path = Some r" by simp
  obtain m where n: "n = Suc m" using Cons.prems(2) by (cases n) auto
  show ?case
  proof (cases m)
    case 0
    with n i below show ?thesis by (simp add: row_at_descendant)
  next
    case (Suc k)
    with n Cons.prems(3) have "0 < m" "m < length path" by simp_all
    from Cons.IH [OF below this] obtain a where
      a: "row_at (child_rows (rows ! i)) (take m path) = Some a" "r \<in> set (descendants a)" by blast
    have "take m path \<noteq> []" using Suc ne by (cases path) auto
    with a i n show ?thesis by simp
  qed
qed

text \<open>
  C6. For every tree of rows and every non-empty filter pattern, a row is shown after
  filtering if and only if its own sort key or the sort key of some row below it matches
  the pattern; and when the key of a row matches, every row on the path from the top to
  it is shown, whatever the keys on the way.
\<close>

theorem recursive_filter_visible:
  assumes "pattern \<noteq> []"
  shows "(shown found pattern rows path \<longleftrightarrow>
       (\<exists>r. row_at rows path = Some r \<and>
          (found pattern (key_role r) \<or>
           (\<exists>d \<in> set (descendants r). found pattern (key_role d))))) \<and>
    (\<forall>leaf n. row_at rows path = Some leaf \<and> found pattern (key_role leaf) \<and>
        0 < n \<and> n \<le> length path \<longrightarrow> shown found pattern rows (take n path))"
proof -
  have f: "filterAcceptsRow found pattern r = found pattern (key_role r)" for r
    using assms by (simp add: filterAcceptsRow_def)
  have a: "shown found pattern rows path \<longleftrightarrow>
       (\<exists>r. row_at rows path = Some r \<and>
          (found pattern (key_role r) \<or>
           (\<exists>d \<in> set (descendants r). found pattern (key_role d))))"
    by (simp add: shown_iff accepted_iff f)
  have b: "shown found pattern rows (take n path)"
    if "row_at rows path = Some leaf" "found pattern (key_role leaf)" "0 < n" "n \<le> length path"
    for leaf n
  proof (cases "n = length path")
    case True
    with that(1,2) a show ?thesis by auto
  next
    case False
    with that(4) have "n < length path" by simp
    from row_at_take [OF that(1,3) this] obtain anc where
      anc: "row_at rows (take n path) = Some anc" "leaf \<in> set (descendants anc)" by blast
    have "accepted found pattern leaf"
      using that(2) by (simp add: accepted_iff f)
    with anc have "accepted found pattern anc" using accepted_up by blast
    with anc(1) show ?thesis by (auto simp: shown_iff)
  qed
  from a b show ?thesis by blast
qed

theorem recursive_filter_visible_witness:
  "shown found_plain ''abc''
     [Row ''1|Prop'' [Row ''1|Prop|chair'' [], Row ''1|Prop|xABCy'' []], Row ''1|Set'' []] [0, 1] \<and>
   shown found_plain ''abc''
     [Row ''1|Prop'' [Row ''1|Prop|chair'' [], Row ''1|Prop|xABCy'' []], Row ''1|Set'' []] [0] \<and>
   \<not> found_plain ''abc'' ''1|Prop'' \<and>
   \<not> shown found_plain ''abc''
     [Row ''1|Prop'' [Row ''1|Prop|chair'' [], Row ''1|Prop|xABCy'' []], Row ''1|Set'' []] [0, 0] \<and>
   \<not> shown found_plain ''abc''
     [Row ''1|Prop'' [Row ''1|Prop|chair'' [], Row ''1|Prop|xABCy'' []], Row ''1|Set'' []] [1]"
  using recursive_filter_visible [of "''abc''" found_plain
      "[Row ''1|Prop'' [Row ''1|Prop|chair'' [], Row ''1|Prop|xABCy'' []], Row ''1|Set'' []]" "[0, 1]"]
  by (simp add: found_plain_def lower_char_def filterAcceptsRow_def)

section \<open>Properties of the lazy tree\<close>



lemma keeps_wf:
  assumes wf: "view_wf v" and k: "keeps v v'"
  shows "view_wf v'"
proof -
  from wf obtain r where "items v (root_item v) = Some r" by (auto simp: view_wf_def)
  with k have root: "items v' (root_item v') \<noteq> None"
    unfolding keeps_def by fastforce
  have "n < next_id v' \<and> 0 < rank (loading_state it')" if i: "items v' n = Some it'" for n it'
  proof (cases "items v n")
    case None
    with k i have "n < next_id v'" "loading_state it' = Some NotLoaded"
      unfolding keeps_def by blast+
    then show ?thesis by simp
  next
    case (Some it)
    with wf have "n < next_id v" "0 < rank (loading_state it)"
      by (auto simp: view_wf_def)
    moreover from k Some i have "loading_state it' = loading_state it"
      unfolding keeps_def by fastforce
    moreover from k have "next_id v \<le> next_id v'" by (simp add: keeps_def)
    ultimately show ?thesis by simp
  qed
  with root show ?thesis unfolding view_wf_def by blast
qed






lemma find_item_by_key_items:
  "items (snd (find_item_by_key k v)) = items v \<and> root_item (snd (find_item_by_key k v)) = root_item v \<and>
   next_id (snd (find_item_by_key k v)) = next_id v \<and>
   view_project (snd (find_item_by_key k v)) = view_project v \<and>
   handed_out (snd (find_item_by_key k v)) = handed_out v"
  by (simp add: find_item_by_key_def split: option.splits)

lemma find_item_by_key_keeps: "keeps v (snd (find_item_by_key k v))"
  using find_item_by_key_items [of k v] by (simp add: keeps_def)

lemma find_item_by_key_valid:
  "find_item_by_key k v = (Some n, v1) \<Longrightarrow> items v1 n \<noteq> None"
  by (auto simp: find_item_by_key_def isValid_def split: option.splits if_splits)









lemma append_item_keeps:
  assumes wf: "view_wf v"
  shows "keeps v (snd (append_item parent_item lbl ety key_arg is_expandable v))"
proof -
  define parent where "parent = (if isValid v parent_item then parent_item else root_item v)"
  have "items v parent \<noteq> None"
  proof (cases "isValid v parent_item")
    case True
    then show ?thesis by (simp add: parent_def isValid_def)
  next
    case False
    with wf show ?thesis by (simp add: parent_def view_wf_def)
  qed
  then obtain pi where pv: "items v parent = Some pi" by blast
  define k where "k = (case items v parent of
               Some p \<Rightarrow>
                 (case item_key p of
                    Some k \<Rightarrow> if k = [] then py_str (project_id (view_project v)) else k
                  | None \<Rightarrow> py_str (project_id (view_project v)))
             | None \<Rightarrow> py_str (project_id (view_project v))) @ CHR ''|'' #
            (case key_arg of Some ka \<Rightarrow> if ka = [] then lbl else ka | None \<Rightarrow> lbl)"
  obtain found v1 where f: "find_item_by_key k v = (found, v1)"
    by (cases "find_item_by_key k v")
  have v1: "items v1 = items v" "root_item v1 = root_item v" "next_id v1 = next_id v"
    using find_item_by_key_items [of k v] f by simp_all
  have kv1: "keeps v v1"
    using find_item_by_key_keeps [of v k] f by simp
  have fresh: "items v (next_id v) = None"
  proof (rule ccontr)
    assume "items v (next_id v) \<noteq> None"
    then obtain it where "items v (next_id v) = Some it" by blast
    with wf have "next_id v < next_id v" unfolding view_wf_def by blast
    then show False by simp
  qed
  with pv have ne: "parent \<noteq> next_id v" by auto
  have below: "n < next_id v" if "items v n = Some it" for n it
    using wf that unfolding view_wf_def by blast
  show ?thesis
  proof (cases found)
    case (Some child)
    then have "snd (append_item parent_item lbl ety key_arg is_expandable v) = v1"
      using f [unfolded k_def]
      by (simp add: append_item_def Let_def parent_def [symmetric])
    with kv1 show ?thesis by simp
  next
    case None
    show ?thesis
      using f [unfolded k_def] None v1 fresh pv ne below
      by (auto simp: append_item_def Let_def parent_def [symmetric] keeps_def setIcon_def
          dest: below)
  qed
qed

lemma append_item_wf:
  "view_wf v \<Longrightarrow> view_wf (snd (append_item parent_item lbl ety key_arg is_expandable v))"
  using append_item_keeps keeps_wf by blast





lemma ignore_view_state [simp]:
  "keeps v (v'\<lparr>view_state := s\<rparr>) = keeps v v'"
  "advances v (v'\<lparr>view_state := s\<rparr>) = advances v v'"
  "view_wf (v'\<lparr>view_state := s\<rparr>) = view_wf v'"
  "never_unloads v (v'\<lparr>view_state := s\<rparr>) = never_unloads v v'"
  by (simp_all add: keeps_def advances_def view_wf_def never_unloads_def)

lemma ignore_handed_out [simp]:
  "keeps v (v'\<lparr>handed_out := h\<rparr>) = keeps v v'"
  "advances v (v'\<lparr>handed_out := h\<rparr>) = advances v v'"
  "view_wf (v'\<lparr>handed_out := h\<rparr>) = view_wf v'"
  "never_unloads v (v'\<lparr>handed_out := h\<rparr>) = never_unloads v v'"
  "advances (v'\<lparr>handed_out := h\<rparr>) v = advances v' v"
  "never_unloads (v'\<lparr>handed_out := h\<rparr>) v = never_unloads v' v"
  by (simp_all add: keeps_def advances_def view_wf_def never_unloads_def)

lemma ignore_filter_wildcard [simp]:
  "advances v (v'\<lparr>filter_wildcard := h\<rparr>) = advances v v'"
  "view_wf (v'\<lparr>filter_wildcard := h\<rparr>) = view_wf v'"
  by (simp_all add: advances_def view_wf_def)











lemma keeps_never_unloads: "keeps v v' \<Longrightarrow> never_unloads v v'"
  unfolding keeps_def never_unloads_def by fastforce


























lemma ignore_leaf_inv [simp]:
  "leaf_inv (v\<lparr>view_state := s\<rparr>) = leaf_inv v"
  "leaf_inv (v\<lparr>filter_wildcard := w\<rparr>) = leaf_inv v"
  "leaf_inv (v\<lparr>view_project := p\<rparr>) = leaf_inv v"
  by (simp_all add: leaf_inv_def)

































end
